theory Spec2Isabelle
  imports Complex_Main "HOL-Library.Multiset" "HOL-Library.Sublist"
    "HOL-Library.Char_ord" "HOL-Library.List_Lexorder"
begin

section \<open>JavaScript values and string helpers\<close>

text \<open>
  The values that reach the code under study: \<open>undefined\<close>, \<open>null\<close>, booleans, numbers
  and strings. Numbers are modelled as exact rationals (the store's columns are
  \<open>NUMERIC(10, 2)\<close> and \<open>BIGSERIAL\<close>); \<open>NaN\<close> and the infinities are outside the model.
  Strings are lists of characters.
\<close>

datatype jsval = Undefined | Null | Bool bool | Num rat | Str string

text \<open>\<open>typeof v === 'number'\<close>.\<close>

fun is_number :: "jsval \<Rightarrow> bool" where
  "is_number (Num n) = True"
| "is_number _ = False"

text \<open>Truthiness: \<open>undefined\<close>, \<open>null\<close>, \<open>false\<close>, \<open>0\<close> and \<open>''\<close> are falsy.\<close>

fun truthy :: "jsval \<Rightarrow> bool" where
  "truthy Undefined = False"
| "truthy Null = False"
| "truthy (Bool b) = b"
| "truthy (Num n) = (n \<noteq> 0)"
| "truthy (Str s) = (s \<noteq> [])"

text \<open>
  \<open>String(v)\<close>. The decimal rendering of a number is the engine's; it is taken as the
  parameter \<open>ns\<close>.
\<close>

fun String :: "(rat \<Rightarrow> string) \<Rightarrow> jsval \<Rightarrow> string" where
  "String ns Undefined = ''undefined''"
| "String ns Null = ''null''"
| "String ns (Bool b) = (if b then ''true'' else ''false'')"
| "String ns (Num n) = ns n"
| "String ns (Str s) = s"

text \<open>\<open>s.replace(/c/g, rep)\<close> for a one-character pattern: every occurrence, left to right.\<close>

definition replace_all :: "char \<Rightarrow> string \<Rightarrow> string \<Rightarrow> string" where
  "replace_all c rep s = concat (map (\<lambda>x. if x = c then rep else [x]) s)"

section \<open>escapeHtml (js/item.js and the earlier list page)\<close>

definition escapeHtml :: "(rat \<Rightarrow> string) \<Rightarrow> jsval \<Rightarrow> string" where
  "escapeHtml ns str =
     (if \<not> truthy str then ''''
      else replace_all (CHR 0x27) ''&#039;''
            (replace_all (CHR 0x22) ''&quot;''
              (replace_all CHR ''>'' ''&gt;''
                (replace_all CHR ''<'' ''&lt;''
                  (replace_all CHR ''&'' ''&amp;'' (String ns str))))))"

text \<open>The entity that stands for one character of the input.\<close>

definition entity :: "char \<Rightarrow> string" where
  "entity c =
     (if c = CHR ''&'' then ''&amp;''
      else if c = CHR ''<'' then ''&lt;''
      else if c = CHR ''>'' then ''&gt;''
      else if c = CHR 0x22 then ''&quot;''
      else if c = CHR 0x27 then ''&#039;''
      else [c])"


section \<open>String methods used by the list page\<close>

text \<open>
  Characters are the code units \<open>U+0000\<close> to \<open>U+00FF\<close>. \<open>toLowerCase\<close> maps the
  letters \<open>A\<close> to \<open>Z\<close> and the capital letters \<open>U+00C0\<close> to \<open>U+00DE\<close> (without the
  multiplication sign \<open>U+00D7\<close>) to their small letters, 32 places further on; every
  other character of that range is left as it is.
\<close>

definition is_upper :: "char \<Rightarrow> bool" where
  "is_upper c = (c \<in> set ''ABCDEFGHIJKLMNOPQRSTUVWXYZ'')"

definition upper_letters :: string where
  "upper_letters = ''ABCDEFGHIJKLMNOPQRSTUVWXYZ'' @
     [CHR 0xC0, CHR 0xC1, CHR 0xC2, CHR 0xC3, CHR 0xC4, CHR 0xC5, CHR 0xC6, CHR 0xC7,
      CHR 0xC8, CHR 0xC9, CHR 0xCA, CHR 0xCB, CHR 0xCC, CHR 0xCD, CHR 0xCE, CHR 0xCF,
      CHR 0xD0, CHR 0xD1, CHR 0xD2, CHR 0xD3, CHR 0xD4, CHR 0xD5, CHR 0xD6, CHR 0xD8,
      CHR 0xD9, CHR 0xDA, CHR 0xDB, CHR 0xDC, CHR 0xDD, CHR 0xDE]"

definition lower_letters :: string where
  "lower_letters = ''abcdefghijklmnopqrstuvwxyz'' @
     [CHR 0xE0, CHR 0xE1, CHR 0xE2, CHR 0xE3, CHR 0xE4, CHR 0xE5, CHR 0xE6, CHR 0xE7,
      CHR 0xE8, CHR 0xE9, CHR 0xEA, CHR 0xEB, CHR 0xEC, CHR 0xED, CHR 0xEE, CHR 0xEF,
      CHR 0xF0, CHR 0xF1, CHR 0xF2, CHR 0xF3, CHR 0xF4, CHR 0xF5, CHR 0xF6, CHR 0xF8,
      CHR 0xF9, CHR 0xFA, CHR 0xFB, CHR 0xFC, CHR 0xFD, CHR 0xFE]"

definition lower_char :: "char \<Rightarrow> char" where
  "lower_char c =
     (case map_of (zip upper_letters lower_letters) c of
        Some l \<Rightarrow> l
      | None \<Rightarrow> c)"

definition toLowerCase :: "string \<Rightarrow> string" where
  "toLowerCase s = map lower_char s"

text \<open>\<open>trim\<close>: white space is removed at both ends.\<close>

definition is_space :: "char \<Rightarrow> bool" where
  "is_space c = (c \<in> set [CHR 0x20, CHR 0x09, CHR 0x0A, CHR 0x0B, CHR 0x0C, CHR 0x0D, CHR 0xA0])"

definition trim :: "string \<Rightarrow> string" where
  "trim s = rev (dropWhile is_space (rev (dropWhile is_space s)))"

definition startsWith :: "string \<Rightarrow> string \<Rightarrow> bool" where
  "startsWith s p = (take (length p) s = p)"

text \<open>\<open>s.includes(t)\<close>: \<open>t\<close> is searched at every position of \<open>s\<close>, left to right.\<close>

fun includes' :: "string \<Rightarrow> string \<Rightarrow> bool" where
  "includes' [] t = (t = [])"
| "includes' (c # cs) t = (startsWith (c # cs) t \<or> includes' cs t)"

text \<open>\<open>camelToSnake\<close>: \<open>str.replace(/[A-Z]/g, letter => `_${letter.toLowerCase()}`)\<close>.\<close>

definition camelToSnake :: "string \<Rightarrow> string" where
  "camelToSnake str = concat (map (\<lambda>c. if is_upper c then [CHR ''_'', lower_char c] else [c]) str)"

text \<open>\<open>xs.findIndex(p)\<close>; \<open>None\<close> stands for \<open>-1\<close>.\<close>

fun findIndex :: "('a \<Rightarrow> bool) \<Rightarrow> 'a list \<Rightarrow> nat option" where
  "findIndex P [] = None"
| "findIndex P (x # xs) = (if P x then Some 0 else map_option Suc (findIndex P xs))"

section \<open>Budget items (js/index.js)\<close>

text \<open>
  An item of the list page. The text columns of the store are strings or null, the
  numeric columns numbers or null; \<open>None\<close> is null. The identifier is a number for a
  stored item and the string \<open>new-item-temp-...\<close> for the row that is not stored yet.
\<close>

record budget_item =
  id' :: jsval
  category :: "string option"
  item :: "string option"
  required :: "string option"
  notes' :: "string option"
  unitCost :: "rat option"
  quantity :: "rat option"
  subTotal :: "rat option"
  mdContent :: "string option"
  html :: "string option"

text \<open>What the store takes on \<open>insert\<close> (the result of \<open>transformToDb\<close>).\<close>

record db_payload =
  db_category :: "string option"
  db_item :: "string option"
  db_required :: "string option"
  db_notes :: "string option"
  unit_cost :: "rat option"
  db_quantity :: "rat option"
  sub_total :: "rat option"
  md_content :: "string option"
  db_html :: "string option"

text \<open>A row as the store returns it: the payload and the identifier it assigned.\<close>

record db_row = db_payload +
  db_id :: int

definition transformItem :: "db_row \<Rightarrow> budget_item" where
  "transformItem dbItem =
     \<lparr> id' = Num (of_int (db_id dbItem)),
       category = db_category dbItem,
       item = db_item dbItem,
       required = db_required dbItem,
       notes' = db_notes dbItem,
       unitCost = unit_cost dbItem,
       quantity = db_quantity dbItem,
       subTotal = sub_total dbItem,
       mdContent = md_content dbItem,
       html = db_html dbItem \<rparr>"

text \<open>\<open>x || null\<close> on a number and on a string.\<close>

definition num_or_null :: "rat option \<Rightarrow> rat option" where
  "num_or_null v = (case v of Some n \<Rightarrow> (if n = 0 then None else Some n) | None \<Rightarrow> None)"

definition str_or_null :: "string option \<Rightarrow> string option" where
  "str_or_null v = (case v of Some s \<Rightarrow> (if s = [] then None else Some s) | None \<Rightarrow> None)"

definition transformToDb :: "budget_item \<Rightarrow> db_payload" where
  "transformToDb it =
     \<lparr> db_category = category it,
       db_item = item it,
       db_required = required it,
       db_notes = notes' it,
       unit_cost = num_or_null (unitCost it),
       db_quantity = num_or_null (quantity it),
       sub_total = num_or_null (subTotal it),
       md_content = str_or_null (mdContent it),
       db_html = None \<rparr>"

text \<open>\<open>typeof id === 'string' && id.startsWith('new-item-temp-')\<close>.\<close>

definition isNewItem :: "jsval \<Rightarrow> bool" where
  "isNewItem i = (case i of Str s \<Rightarrow> startsWith s ''new-item-temp-'' | _ \<Rightarrow> False)"

definition str_val :: "string option \<Rightarrow> jsval" where
  "str_val v = (case v of Some s \<Rightarrow> Str s | None \<Rightarrow> Null)"

definition num_val :: "rat option \<Rightarrow> jsval" where
  "num_val v = (case v of Some n \<Rightarrow> Num n | None \<Rightarrow> Null)"

text \<open>\<open>item[key]\<close> for a property name; a name the item does not have gives \<open>undefined\<close>.\<close>

definition get_field :: "string \<Rightarrow> budget_item \<Rightarrow> jsval" where
  "get_field k it =
     (if k = ''id'' then id' it
      else if k = ''category'' then str_val (category it)
      else if k = ''item'' then str_val (item it)
      else if k = ''required'' then str_val (required it)
      else if k = ''notes'' then str_val (notes' it)
      else if k = ''unitCost'' then num_val (unitCost it)
      else if k = ''quantity'' then num_val (quantity it)
      else if k = ''subTotal'' then num_val (subTotal it)
      else if k = ''mdContent'' then str_val (mdContent it)
      else if k = ''html'' then str_val (html it)
      else Undefined)"

definition calculateSubTotal :: "budget_item \<Rightarrow> rat" where
  "calculateSubTotal it =
     (case subTotal it of
        Some s \<Rightarrow> s
      | None \<Rightarrow>
          (let cost = (case unitCost it of Some c \<Rightarrow> c | None \<Rightarrow> 0);
               qty = (case quantity it of Some q \<Rightarrow> q | None \<Rightarrow> 1)
           in cost * qty))"

text \<open>The callback of \<open>originalData.filter\<close> in \<open>applyFilters\<close>.\<close>

definition truthy_str :: "string option \<Rightarrow> bool" where
  "truthy_str v = (case v of Some s \<Rightarrow> s \<noteq> [] | None \<Rightarrow> False)"

definition applyFilters_keep :: "string \<Rightarrow> string \<Rightarrow> bool \<Rightarrow> budget_item \<Rightarrow> bool" where
  "applyFilters_keep searchTerm categoryValue requiredOnly it =
     (let matchesSearch = (searchTerm = [] \<or>
            (truthy_str (item it) \<and> includes' (toLowerCase (the (item it))) searchTerm) \<or>
            (truthy_str (category it) \<and> includes' (toLowerCase (the (category it))) searchTerm));
          matchesCategory = (categoryValue = [] \<or> category it = Some categoryValue);
          matchesRequired = (\<not> requiredOnly \<or>
            (truthy_str (required it) \<and> startsWith (toLowerCase (the (required it))) ''y''))
      in matchesSearch \<and> matchesCategory \<and> matchesRequired)"

text \<open>The comparator of \<open>filteredData.sort\<close> in \<open>sortData\<close>.\<close>

definition blank_if_missing :: "jsval \<Rightarrow> jsval" where
  "blank_if_missing v = (if v = Undefined \<or> v = Null then Str [] else v)"

definition sort_value :: "string \<Rightarrow> budget_item \<Rightarrow> jsval" where
  "sort_value k a =
     blank_if_missing (if k = ''subTotal'' then Num (calculateSubTotal a) else get_field k a)"

definition sortData_cmp :: "(rat \<Rightarrow> string) \<Rightarrow> string \<Rightarrow> bool \<Rightarrow> budget_item \<Rightarrow> budget_item \<Rightarrow> rat" where
  "sortData_cmp ns k asc a b =
     (let va = sort_value k a; vb = sort_value k b
      in case (va, vb) of
           (Num x, Num y) \<Rightarrow> (if asc then x - y else y - x)
         | _ \<Rightarrow>
            (let sa = toLowerCase (String ns va); sb = toLowerCase (String ns vb)
             in if sa < sb then (if asc then - 1 else 1)
                else if sa > sb then (if asc then 1 else - 1)
                else 0))"

text \<open>
  \<open>Array.prototype.sort\<close> with a comparator: the sort is stable, and for a consistent
  comparator the result is the one of this insertion sort (an element goes before the
  first element of the sorted rest that it does not come after).
\<close>

fun insert_by :: "('a \<Rightarrow> 'a \<Rightarrow> rat) \<Rightarrow> 'a \<Rightarrow> 'a list \<Rightarrow> 'a list" where
  "insert_by cmp x [] = [x]"
| "insert_by cmp x (y # ys) = (if cmp x y \<le> 0 then x # y # ys else y # insert_by cmp x ys)"

definition array_sort :: "('a \<Rightarrow> 'a \<Rightarrow> rat) \<Rightarrow> 'a list \<Rightarrow> 'a list" where
  "array_sort cmp xs = foldr (insert_by cmp) xs []"

section \<open>The page state\<close>

text \<open>
  Items are objects that the arrays and the event handlers share, so the state holds a
  store of objects and the arrays hold references. \<open>calls\<close> records the requests sent to
  the store. The three filter controls and the three summary figures (before they
  are formatted) are the parts of the document the code reads and writes.
\<close>

record sort_state =
  key :: string
  asc :: bool

datatype net_call =
    SelectAll
  | Insert db_payload
  | UpdateField jsval string jsval
  | Delete jsval

record state =
  heap :: "nat \<Rightarrow> budget_item"
  next_ref :: nat
  originalData :: "nat list"
  filteredData :: "nat list"
  currentSort :: sort_state
  searchInput :: string
  categoryFilter :: string
  requiredFilter :: bool
  totalCount :: nat
  visibleCount :: nat
  totalCost :: rat
  calls :: "net_call list"

definition is_new :: "state \<Rightarrow> nat \<Rightarrow> bool" where
  "is_new st r = isNewItem (id' (heap st r))"

definition applyFilters :: "state \<Rightarrow> state" where
  "applyFilters st =
     (let searchTerm = toLowerCase (trim (searchInput st));
          categoryValue = categoryFilter st;
          requiredOnly = requiredFilter st
      in st\<lparr>filteredData :=
            filter (\<lambda>r. applyFilters_keep searchTerm categoryValue requiredOnly (heap st r))
              (originalData st)\<rparr>)"

definition sortData :: "(rat \<Rightarrow> string) \<Rightarrow> state \<Rightarrow> state" where
  "sortData ns st =
     st\<lparr>filteredData :=
          array_sort (\<lambda>a b. sortData_cmp ns (key (currentSort st)) (asc (currentSort st))
                           (heap st a) (heap st b))
            (filteredData st)\<rparr>"

text \<open>
  \<open>updateSummary\<close> writes the two counts and the total; the budget cards that
  \<open>updateMetrics\<close> fills are not part of the model.
\<close>

definition updateSummary :: "state \<Rightarrow> state" where
  "updateSummary st =
     st\<lparr>totalCount := length (filter (\<lambda>r. \<not> is_new st r) (originalData st)),
        visibleCount := length (filter (\<lambda>r. \<not> is_new st r) (filteredData st)),
        totalCost := foldl (\<lambda>sum r. sum + calculateSubTotal (heap st r)) 0 (filteredData st)\<rparr>"

definition renderTable :: "(rat \<Rightarrow> string) \<Rightarrow> state \<Rightarrow> state" where
  "renderTable ns st = updateSummary (sortData ns st)"

definition handleFilterChange :: "(rat \<Rightarrow> string) \<Rightarrow> state \<Rightarrow> state" where
  "handleFilterChange ns st = renderTable ns (applyFilters st)"

text \<open>The click handler that \<open>init\<close> attaches to a column header.\<close>

definition sortClick :: "(rat \<Rightarrow> string) \<Rightarrow> string \<Rightarrow> state \<Rightarrow> state" where
  "sortClick ns k st =
     renderTable ns
       (st\<lparr>currentSort :=
             (if key (currentSort st) = k
              then (currentSort st)\<lparr>asc := \<not> asc (currentSort st)\<rparr>
              else \<lparr>key = k, asc = True\<rparr>)\<rparr>)"

section \<open>Loading, adding, editing and deleting (js/index.js)\<close>

definition blank_item :: budget_item where
  "blank_item =
     \<lparr> id' = Undefined, category = None, item = None, required = None, notes' = None,
       unitCost = None, quantity = None, subTotal = None, mdContent = None, html = None \<rparr>"

text \<open>
  \<open>init\<close>: the fetched rows (none when the request fails) become the canonical
  collection, \<open>filteredData\<close> is a copy of it, and the table is rendered. The filters are
  not applied at this point, whatever the search box and the check box hold;
  \<open>populateCategoryFilter\<close> has just rebuilt the category selector, whose value is empty.
\<close>

definition init :: "(rat \<Rightarrow> string) \<Rightarrow> string \<Rightarrow> bool \<Rightarrow> db_row list option \<Rightarrow> state" where
  "init ns search req fetched =
     (let rows = (case fetched of Some d \<Rightarrow> d | None \<Rightarrow> [])
      in renderTable ns
           \<lparr> heap = (\<lambda>r. if r < length rows then transformItem (rows ! r) else blank_item),
             next_ref = length rows,
             originalData = [0..<length rows],
             filteredData = [0..<length rows],
             currentSort = \<lparr>key = ''id'', asc = True\<rparr>,
             searchInput = search,
             categoryFilter = [],
             requiredFilter = req,
             totalCount = 0,
             visibleCount = 0,
             totalCost = 0,
             calls = [SelectAll] \<rparr>)"

text \<open>
  \<open>addNewItemRow\<close>; \<open>stamp\<close> is the text of \<open>Date.now()\<close>. The new object is put in
  front of the canonical collection. Entering edit mode afterwards works on the
  document; at most it renders the table once more (\<open>r_render\<close> below).
\<close>

definition addNewItemRow :: "(rat \<Rightarrow> string) \<Rightarrow> string \<Rightarrow> state \<Rightarrow> state" where
  "addNewItemRow ns stamp st =
     (let hasNewItem = list_ex (is_new st) (originalData st)
      in if hasNewItem then st
         else
           (let newItem =
                  \<lparr> id' = Str (''new-item-temp-'' @ stamp), category = Some [], item = Some [],
                    required = Some ''No'', notes' = Some [], unitCost = None, quantity = None,
                    subTotal = None, mdContent = Some [], html = None \<rparr>;
                r = next_ref st;
                st1 = st\<lparr>heap := (heap st)(r := newItem), next_ref := Suc r,
                         originalData := r # originalData st\<rparr>
            in renderTable ns (applyFilters st1)))"

text \<open>The editable cells; \<open>field_name\<close> is the input's \<open>dataset.field\<close>.\<close>

datatype field = Category | Item | Required | UnitCost | Quantity

fun field_name :: "field \<Rightarrow> string" where
  "field_name Category = ''category''"
| "field_name Item = ''item''"
| "field_name Required = ''required''"
| "field_name UnitCost = ''unitCost''"
| "field_name Quantity = ''quantity''"

fun str_of :: "jsval \<Rightarrow> string option" where
  "str_of (Str s) = Some s"
| "str_of _ = None"

fun num_of :: "jsval \<Rightarrow> rat option" where
  "num_of (Num n) = Some n"
| "num_of _ = None"

text \<open>
  \<open>item[field] = newValue\<close>. A text cell is given a string and a numeric cell a number
  or null (see \<open>blur_value\<close>); no other combination occurs.
\<close>

fun set_field :: "field \<Rightarrow> jsval \<Rightarrow> budget_item \<Rightarrow> budget_item" where
  "set_field Category v it = it\<lparr>category := str_of v\<rparr>"
| "set_field Item v it = it\<lparr>item := str_of v\<rparr>"
| "set_field Required v it = it\<lparr>required := str_of v\<rparr>"
| "set_field UnitCost v it = it\<lparr>unitCost := num_of v\<rparr>"
| "set_field Quantity v it = it\<lparr>quantity := num_of v\<rparr>"

text \<open>
  The value a blur submits: the trimmed text of the input, and for the two numeric
  cells null when that text is empty and \<open>parseFloat\<close> of it otherwise (\<open>pf\<close> is the
  engine's \<open>parseFloat\<close>).
\<close>

definition blur_value :: "(string \<Rightarrow> rat) \<Rightarrow> field \<Rightarrow> string \<Rightarrow> jsval" where
  "blur_value pf f raw =
     (let newValue = trim raw
      in if f = UnitCost \<or> f = Quantity
         then (if newValue = [] then Null else Num (pf newValue))
         else Str newValue)"

text \<open>
  \<open>handleFieldBlur\<close> stops at one \<open>await\<close>. \<open>handleFieldBlur_begin\<close> is the part before
  it and returns what the handler waits for, if anything; \<open>handleFieldBlur_resume\<close> is
  the part after it, run with the store's answer (\<open>None\<close> when the request failed or
  returned no row). The second component of the result of \<open>handleFieldBlur_resume\<close> is
  the value assigned to the input, if one is assigned.
\<close>

datatype pending =
    AwaitCreate nat
  | AwaitUpdate nat field jsval jsval

definition handleFieldBlur_begin ::
  "(string \<Rightarrow> rat) \<Rightarrow> state \<Rightarrow> nat \<Rightarrow> field \<Rightarrow> string \<Rightarrow> state \<times> pending option" where
  "handleFieldBlur_begin pf st r f raw =
     (let newValue = blur_value pf f raw;
          oldValue = get_field (field_name f) (heap st r)
      in if oldValue = newValue then (st, None)
         else if isNewItem (id' (heap st r)) then
           (let st1 = st\<lparr>heap := (heap st)(r := set_field f newValue (heap st r))\<rparr>
            in if truthy_str (category (heap st1 r)) \<and> truthy_str (item (heap st1 r))
               then (st1\<lparr>calls := calls st1 @ [Insert (transformToDb (heap st1 r))]\<rparr>,
                     Some (AwaitCreate r))
               else (st1, None))
         else
           (st\<lparr>calls := calls st @
                  [UpdateField (id' (heap st r)) (camelToSnake (field_name f)) newValue]\<rparr>,
            Some (AwaitUpdate r f newValue oldValue)))"

fun handleFieldBlur_resume ::
  "(rat \<Rightarrow> string) \<Rightarrow> state \<Rightarrow> pending \<Rightarrow> db_row option \<Rightarrow> state \<times> jsval option" where
  "handleFieldBlur_resume ns st (AwaitCreate r) resp =
     (case resp of
        None \<Rightarrow> (st, None)
      | Some row \<Rightarrow>
          (let created = transformItem row;
               c = next_ref st;
               st1 = st\<lparr>heap := (heap st)(c := created), next_ref := Suc c\<rparr>;
               index = findIndex (\<lambda>i. id' (heap st1 i) = id' (heap st1 r)) (originalData st1);
               st2 = (case index of
                        Some n \<Rightarrow> st1\<lparr>originalData := (originalData st1)[n := c]\<rparr>
                      | None \<Rightarrow> st1);
               st3 = st2\<lparr>heap := (heap st2)(r := created)\<rparr>
           in (renderTable ns (applyFilters st3), None)))"
| "handleFieldBlur_resume ns st (AwaitUpdate r f newValue oldValue) resp =
     (case resp of
        Some row \<Rightarrow>
          (let st1 = st\<lparr>heap := (heap st)(r := set_field f newValue (heap st r))\<rparr>;
               index = findIndex (\<lambda>i. id' (heap st1 i) = id' (heap st1 r)) (originalData st1);
               st2 = (case index of
                        Some n \<Rightarrow>
                          (let c = next_ref st1
                           in st1\<lparr>heap := (heap st1)
                                    (c := set_field f newValue (heap st1 (originalData st1 ! n))),
                                  next_ref := Suc c,
                                  originalData := (originalData st1)[n := c]\<rparr>)
                      | None \<Rightarrow> st1)
           in (updateSummary st2, None))
      | None \<Rightarrow>
          (st, Some (if f = UnitCost \<or> f = Quantity
                     then (if oldValue \<noteq> Null \<and> oldValue \<noteq> Undefined then oldValue else Str [])
                     else (if truthy oldValue then oldValue else Str []))))"

text \<open>
  \<open>handleDelete\<close>, split at its \<open>await\<close> in the same way; \<open>confirmed\<close> is the answer to
  the confirmation dialogue, \<open>success\<close> the result of \<open>deleteItem\<close>.
\<close>

definition remove_id :: "jsval \<Rightarrow> state \<Rightarrow> state" where
  "remove_id i st = st\<lparr>originalData := filter (\<lambda>r. id' (heap st r) \<noteq> i) (originalData st)\<rparr>"

definition handleDelete_begin ::
  "(rat \<Rightarrow> string) \<Rightarrow> state \<Rightarrow> jsval \<Rightarrow> bool \<Rightarrow> state \<times> jsval option" where
  "handleDelete_begin ns st i confirmed =
     (if isNewItem i then (renderTable ns (applyFilters (remove_id i st)), None)
      else if \<not> confirmed then (st, None)
      else (st\<lparr>calls := calls st @ [Delete i]\<rparr>, Some i))"

definition handleDelete_resume :: "(rat \<Rightarrow> string) \<Rightarrow> state \<Rightarrow> jsval \<Rightarrow> bool \<Rightarrow> state" where
  "handleDelete_resume ns st i success =
     (if success then renderTable ns (applyFilters (remove_id i st)) else st)"

text \<open>
  The states the page can be in: the loaded page, and what any handler makes of a
  state. A handler may be resumed with any answer and in any order with the others.
\<close>

inductive reachable :: "(rat \<Rightarrow> string) \<Rightarrow> (string \<Rightarrow> rat) \<Rightarrow> state \<Rightarrow> bool"
  for ns :: "rat \<Rightarrow> string" and pf :: "string \<Rightarrow> rat" where
  r_init: "reachable ns pf (init ns search req fetched)"
| r_filter: "reachable ns pf st \<Longrightarrow>
     reachable ns pf
       (handleFilterChange ns (st\<lparr>searchInput := s, categoryFilter := c, requiredFilter := q\<rparr>))"
| r_sort: "reachable ns pf st \<Longrightarrow> reachable ns pf (sortClick ns k st)"
| r_render: "reachable ns pf st \<Longrightarrow> reachable ns pf (renderTable ns st)"
| r_add: "reachable ns pf st \<Longrightarrow> reachable ns pf (addNewItemRow ns stamp st)"
| r_blur: "reachable ns pf st \<Longrightarrow> r < next_ref st \<Longrightarrow>
     reachable ns pf (fst (handleFieldBlur_begin pf st r f raw))"
| r_blur_create: "reachable ns pf st \<Longrightarrow> r < next_ref st \<Longrightarrow>
     reachable ns pf (fst (handleFieldBlur_resume ns st (AwaitCreate r) resp))"
| r_blur_update: "reachable ns pf st \<Longrightarrow> r < next_ref st \<Longrightarrow>
     reachable ns pf (fst (handleFieldBlur_resume ns st (AwaitUpdate r f nv ov) resp))"
| r_delete: "reachable ns pf st \<Longrightarrow> reachable ns pf (fst (handleDelete_begin ns st i confirmed))"
| r_delete_done: "reachable ns pf st \<Longrightarrow> reachable ns pf (handleDelete_resume ns st i success)"

section \<open>The specification's wording\<close>

text \<open>The subtotal as the specification words it: unit cost times quantity-or-one.\<close>

definition claimed_subtotal :: "budget_item \<Rightarrow> rat" where
  "claimed_subtotal it =
     (case unitCost it of Some c \<Rightarrow> c | None \<Rightarrow> 0) * (case quantity it of Some q \<Rightarrow> q | None \<Rightarrow> 1)"

text \<open>
  The three filter predicates as the specification words them: a case-insensitive
  substring of a field, an exact category, and a \<open>required\<close> text that begins with
  \<open>y\<close> or \<open>Y\<close>.
\<close>

definition ci_substring :: "string \<Rightarrow> string option \<Rightarrow> bool" where
  "ci_substring t v = (case v of Some s \<Rightarrow> sublist (toLowerCase t) (toLowerCase s) | None \<Rightarrow> False)"

definition begins_with_y :: "string option \<Rightarrow> bool" where
  "begins_with_y v =
     (case v of Some (c # cs) \<Rightarrow> c = CHR ''y'' \<or> c = CHR ''Y'' | _ \<Rightarrow> False)"

definition claimed_keep :: "string \<Rightarrow> string \<Rightarrow> bool \<Rightarrow> budget_item \<Rightarrow> bool" where
  "claimed_keep searchTerm cat requiredOnly it =
     ((searchTerm = [] \<or> ci_substring searchTerm (item it) \<or> ci_substring searchTerm (category it))
      \<and> (cat = [] \<or> category it = Some cat)
      \<and> (\<not> requiredOnly \<or> begins_with_y (required it)))"

text \<open>
  The value the specification sorts an item by: the value of the selected field, which
  for the subtotal column is the item's subtotal (the stored one when there is one,
  unit cost times quantity-or-one otherwise); a value that is missing or null is
  replaced by the empty string before anything is compared.
\<close>

definition claimed_field :: "string \<Rightarrow> budget_item \<Rightarrow> jsval" where
  "claimed_field k it =
     (if k = ''subTotal''
      then Num (case subTotal it of Some s \<Rightarrow> s | None \<Rightarrow> claimed_subtotal it)
      else get_field k it)"

definition claimed_key :: "string \<Rightarrow> budget_item \<Rightarrow> jsval" where
  "claimed_key k it =
     (case claimed_field k it of
        Undefined \<Rightarrow> Str []
      | Null \<Rightarrow> Str []
      | Bool b \<Rightarrow> Bool b
      | Num n \<Rightarrow> Num n
      | Str s \<Rightarrow> Str s)"

text \<open>
  The order the specification words for the sort: numbers against numbers by value,
  anything else as lower-case text, the direction turned round when \<open>asc\<close> is false.
\<close>

definition key_le :: "(rat \<Rightarrow> string) \<Rightarrow> jsval \<Rightarrow> jsval \<Rightarrow> bool" where
  "key_le ns va vb =
     (if is_number va \<and> is_number vb then the (num_of va) \<le> the (num_of vb)
      else toLowerCase (String ns va) \<le> toLowerCase (String ns vb))"

definition claimed_before :: "(rat \<Rightarrow> string) \<Rightarrow> string \<Rightarrow> bool \<Rightarrow> budget_item \<Rightarrow> budget_item \<Rightarrow> bool" where
  "claimed_before ns k up a b =
     (if up then key_le ns (claimed_key k a) (claimed_key k b)
      else key_le ns (claimed_key k b) (claimed_key k a))"

text \<open>The comparator applied to two references of a state, and a tie under it.\<close>

definition cmp_refs :: "(rat \<Rightarrow> string) \<Rightarrow> string \<Rightarrow> bool \<Rightarrow> state \<Rightarrow> nat \<Rightarrow> nat \<Rightarrow> rat" where
  "cmp_refs ns k up st a b = sortData_cmp ns k up (heap st a) (heap st b)"

definition tie :: "(rat \<Rightarrow> string) \<Rightarrow> string \<Rightarrow> state \<Rightarrow> nat \<Rightarrow> nat \<Rightarrow> bool" where
  "tie ns k st a b = (cmp_refs ns k True st a b = 0)"

text \<open>
  A comparator is consistent on an array when the order it induces is transitive
  there; \<open>Array.prototype.sort\<close> promises a sorted result for such comparators only.
\<close>

definition consistent :: "(rat \<Rightarrow> string) \<Rightarrow> string \<Rightarrow> state \<Rightarrow> nat list \<Rightarrow> bool" where
  "consistent ns k st xs =
     (\<forall>a\<in>set xs. \<forall>b\<in>set xs. \<forall>c\<in>set xs.
        cmp_refs ns k True st a b \<le> 0 \<longrightarrow> cmp_refs ns k True st b c \<le> 0
          \<longrightarrow> cmp_refs ns k True st a c \<le> 0)"

definition no_ties :: "(rat \<Rightarrow> string) \<Rightarrow> string \<Rightarrow> state \<Rightarrow> nat list \<Rightarrow> bool" where
  "no_ties ns k st xs =
     (distinct xs \<and> (\<forall>a\<in>set xs. \<forall>b\<in>set xs. a \<noteq> b \<longrightarrow> \<not> tie ns k st a b))"

section \<open>Invariants\<close>

text \<open>The number of unsaved rows in the canonical collection.\<close>

definition sentinel_count :: "state \<Rightarrow> nat" where
  "sentinel_count st = length (filter (is_new st) (originalData st))"

text \<open>Every reference of the canonical collection has been allocated.\<close>

definition refs_allocated :: "state \<Rightarrow> bool" where
  "refs_allocated st = (\<forall>x\<in>set (originalData st). x < next_ref st)"

text \<open>A state is in order when its references are allocated and it has at most one unsaved row.\<close>

definition in_order :: "state \<Rightarrow> bool" where
  "in_order st = (refs_allocated st \<and> sentinel_count st \<le> 1)"

text \<open>
  A run of blurs on one row in which no save succeeds: every request that a blur of the
  run sends is rejected. A rejected request changes nothing in whatever state it is
  answered (\<open>handleFieldBlur_resume\<close> returns the state it is given), so the state after
  the run is that of the parts of the handlers before the \<open>await\<close>, in the order of the
  blurs.
\<close>

fun failed_blurs :: "(string \<Rightarrow> rat) \<Rightarrow> state \<Rightarrow> nat \<Rightarrow> (field \<times> string) list \<Rightarrow> state" where
  "failed_blurs pf st r [] = st"
| "failed_blurs pf st r ((f, raw) # es) =
     failed_blurs pf (fst (handleFieldBlur_begin pf st r f raw)) r es"

text \<open>
  A row is complete when it has a category and a name, which is what a create needs.
  In a run of blurs the row stays incomplete when after each blur one of the two is
  still empty.
\<close>

definition complete :: "state \<Rightarrow> nat \<Rightarrow> bool" where
  "complete st r = (truthy_str (category (heap st r)) \<and> truthy_str (item (heap st r)))"

fun stays_incomplete :: "(string \<Rightarrow> rat) \<Rightarrow> state \<Rightarrow> nat \<Rightarrow> (field \<times> string) list \<Rightarrow> bool" where
  "stays_incomplete pf st r [] = True"
| "stays_incomplete pf st r ((f, raw) # es) =
     (\<not> complete (fst (handleFieldBlur_begin pf st r f raw)) r
      \<and> stays_incomplete pf (fst (handleFieldBlur_begin pf st r f raw)) r es)"

text \<open>
  Every allocated object has a number or the identifier of an unsaved row as its
  identifier, and every reference of the view has been allocated.
\<close>

definition ids_typed :: "state \<Rightarrow> bool" where
  "ids_typed st =
     ((\<forall>r<next_ref st. is_number (id' (heap st r)) \<or> isNewItem (id' (heap st r)))
      \<and> (\<forall>r\<in>set (filteredData st). r < next_ref st))"

text \<open>
  What is used of the engine's rendering of a number: the text is not empty and begins
  with a digit or a minus sign.
\<close>

definition decimal :: "(rat \<Rightarrow> string) \<Rightarrow> bool" where
  "decimal ns = (\<forall>n. ns n \<noteq> [] \<and> hd (ns n) \<in> set ''-0123456789'')"

section \<open>Example data\<close>

text \<open>
  \<open>String\<close> and \<open>parseFloat\<close> on whole numbers written with digits, for the examples
  that need a concrete engine.
\<close>

function nat_digits :: "nat \<Rightarrow> string" where
  "nat_digits n =
     (if n < 10 then [''0123456789'' ! n]
      else nat_digits (n div 10) @ [''0123456789'' ! (n mod 10)])"
  by pat_completeness auto
termination
  by (relation "measure (\<lambda>n. n)") auto

definition String_whole :: "rat \<Rightarrow> string" where
  "String_whole q = (if q < 0 then ''-'' else []) @ nat_digits (nat \<lfloor>\<bar>q\<bar>\<rfloor>)"

definition digit_value :: "char \<Rightarrow> nat" where
  "digit_value c = (of_char c :: nat) - 48"

definition parseFloat_whole :: "string \<Rightarrow> rat" where
  "parseFloat_whole s = of_nat (foldl (\<lambda>acc c. 10 * acc + digit_value c) 0 s)"

definition mk_row ::
  "int \<Rightarrow> string \<Rightarrow> string \<Rightarrow> rat option \<Rightarrow> rat option \<Rightarrow> rat option \<Rightarrow> db_row" where
  "mk_row i cat nm cost qty stored =
     \<lparr> db_category = Some cat, db_item = Some nm, db_required = Some ''No'', db_notes = None,
       unit_cost = cost, db_quantity = qty, sub_total = stored, md_content = None,
       db_html = None, db_id = i \<rparr>"

text \<open>
  Three stored rows: a hall at 100 a piece, two of them, with a stored subtotal of 5;
  chairs at 50; a bouquet with no figures.
\<close>

definition ex_rows :: "db_row list" where
  "ex_rows =
     [mk_row 1 ''Venue'' ''Hall'' (Some 100) (Some 2) (Some 5),
      mk_row 2 ''Venue'' ''Chairs'' (Some 50) (Some 1) None,
      mk_row 3 ''Flowers'' ''Bouquet'' None None None]"

definition ex_page :: state where
  "ex_page = init String_whole [] False (Some ex_rows)"

text \<open>Two stored rows without a stored subtotal.\<close>

definition ex_plain :: state where
  "ex_plain = init String_whole [] False
     (Some [mk_row 1 ''Venue'' ''Hall'' (Some 100) (Some 2) None,
            mk_row 2 ''Venue'' ''Chairs'' (Some 50) None None])"

text \<open>The example page with \<open>hAll\<close>, surrounded by blanks, typed into the search box.\<close>

definition ex_search :: state where
  "ex_search = ex_page\<lparr>searchInput := '' hAll '', requiredFilter := False\<rparr>"

text \<open>The example page about to be sorted by category, ascending.\<close>

definition ex_by_category :: state where
  "ex_by_category = ex_page\<lparr>currentSort := \<lparr>key = ''category'', asc = True\<rparr>\<rparr>"

text \<open>
  The example page about to be sorted by unit cost, ascending; the bouquet has no unit
  cost.
\<close>

definition ex_by_cost :: state where
  "ex_by_cost = ex_page\<lparr>currentSort := \<lparr>key = ''unitCost'', asc = True\<rparr>\<rparr>"

section \<open>Example episodes\<close>

text \<open>
  A row is added to the example page (it is object 3); its category is set to
  \<open>Flowers\<close>; its name is set to \<open>Bouquet\<close>, which sends the insert (\<open>ex_sent\<close> is
  the state in which it has been sent and not yet answered), and the store rejects the
  insert.
\<close>

definition ex_added :: state where
  "ex_added = addNewItemRow String_whole ''1700000000000'' ex_page"

definition ex_cat :: state where
  "ex_cat = fst (handleFieldBlur_begin parseFloat_whole ex_added 3 Category ''Flowers'')"

definition ex_sent :: state where
  "ex_sent = fst (handleFieldBlur_begin parseFloat_whole ex_cat 3 Item ''Bouquet'')"

definition ex_retry :: state where
  "ex_retry = fst (handleFieldBlur_resume String_whole ex_sent (AwaitCreate 3) None)"

text \<open>After the rejected insert the row is deleted.\<close>

definition ex_retry_deleted :: state where
  "ex_retry_deleted =
     fst (handleDelete_begin String_whole ex_retry (Str (''new-item-temp-'' @ ''1700000000000''))
            False)"

text \<open>
  A row is added to the example page, its name is set to \<open>Bouquet\<close> and its unit cost
  to 50 while its category is still empty, and the row is deleted.
\<close>

definition ex_deleted :: state where
  "ex_deleted =
     fst (handleDelete_begin String_whole
            (failed_blurs parseFloat_whole
               (addNewItemRow String_whole ''1700000000000'' ex_page) (next_ref ex_page)
               [(Item, ''Bouquet''), (UnitCost, ''50'')])
            (Str (''new-item-temp-'' @ ''1700000000000'')) False)"

text \<open>
  The \<open>required\<close> cell of the chairs (object 1, stored with identifier 2) is changed from
  \<open>No\<close> to \<open>Yes\<close>. The select has a \<open>change\<close> and a \<open>blur\<close> listener, and both run
  \<open>handleFieldBlur\<close>: the first when the value is chosen (\<open>ex_changed\<close>), the second when
  the cell is left (\<open>ex_left\<close>), while the first update is still awaited. The first
  update then succeeds (\<open>ex_saved\<close>) and the second is rejected (\<open>ex_stale\<close>).
\<close>

definition ex_changed :: state where
  "ex_changed = fst (handleFieldBlur_begin parseFloat_whole ex_page 1 Required ''Yes'')"

definition ex_left :: state where
  "ex_left = fst (handleFieldBlur_begin parseFloat_whole ex_changed 1 Required ''Yes'')"

definition ex_saved :: state where
  "ex_saved =
     fst (handleFieldBlur_resume String_whole ex_left
            (AwaitUpdate 1 Required (Str ''Yes'') (Str ''No''))
            (Some ((mk_row 2 ''Venue'' ''Chairs'' (Some 50) (Some 1) None)
                     \<lparr>db_required := Some ''Yes''\<rparr>)))"

definition ex_stale :: "state \<times> jsval option" where
  "ex_stale =
     handleFieldBlur_resume String_whole ex_saved
       (AwaitUpdate 1 Required (Str ''Yes'') (Str ''No'')) None"

section \<open>Properties of escapeHtml\<close>

lemma replace_all_Nil: "replace_all c rep [] = []"
  by (simp add: replace_all_def)

lemma replace_all_Cons:
  "replace_all c rep (x # xs) = (if x = c then rep else [x]) @ replace_all c rep xs"
  by (simp add: replace_all_def)

lemma replace_all_append:
  "replace_all c rep (xs @ ys) = replace_all c rep xs @ replace_all c rep ys"
  by (simp add: replace_all_def)

lemma escape_passes_entity:
  "replace_all (CHR 0x27) ''&#039;''
    (replace_all (CHR 0x22) ''&quot;''
      (replace_all CHR ''>'' ''&gt;''
        (replace_all CHR ''<'' ''&lt;''
          (replace_all CHR ''&'' ''&amp;'' s)))) = concat (map entity s)"
proof (induction s)
  case Nil
  show ?case by (simp add: replace_all_Nil)
next
  case (Cons x xs)
  have one: "replace_all (CHR 0x27) ''&#039;''
    (replace_all (CHR 0x22) ''&quot;''
      (replace_all CHR ''>'' ''&gt;''
        (replace_all CHR ''<'' ''&lt;''
          (replace_all CHR ''&'' ''&amp;'' [x])))) = entity x"
    by (simp add: replace_all_Cons replace_all_Nil entity_def)
  have "replace_all (CHR 0x27) ''&#039;''
    (replace_all (CHR 0x22) ''&quot;''
      (replace_all CHR ''>'' ''&gt;''
        (replace_all CHR ''<'' ''&lt;''
          (replace_all CHR ''&'' ''&amp;'' ([x] @ xs))))) = entity x @ concat (map entity xs)"
    unfolding replace_all_append one Cons.IH ..
  then show ?case by simp
qed

lemma entity_clean:
  "CHR ''<'' \<notin> set (entity c)" "CHR ''>'' \<notin> set (entity c)"
  "CHR 0x22 \<notin> set (entity c)" "CHR 0x27 \<notin> set (entity c)"
  by (simp_all add: entity_def)

lemma concat_entity_clean:
  "CHR ''<'' \<notin> set (concat (map entity s))" "CHR ''>'' \<notin> set (concat (map entity s))"
  "CHR 0x22 \<notin> set (concat (map entity s))" "CHR 0x27 \<notin> set (concat (map entity s))"
  using entity_clean by auto

text \<open>
  C10. For every input, escapeHtml returns a string with none of the characters
  \<open><\<close>, \<open>>\<close>, double quote and single quote; the result is the input's string form with
  every \<open>&\<close> replaced by \<open>&amp;\<close> (and the four other characters by their entities,
  none of them escaped twice); for the empty string, null and undefined the result
  is the empty string.
\<close>

theorem escapeHtml_safe:
  "CHR ''<'' \<notin> set (escapeHtml ns v) \<and> CHR ''>'' \<notin> set (escapeHtml ns v)
   \<and> CHR 0x22 \<notin> set (escapeHtml ns v) \<and> CHR 0x27 \<notin> set (escapeHtml ns v)
   \<and> escapeHtml ns v = concat (map entity (if truthy v then String ns v else ''''))
   \<and> entity CHR ''&'' = ''&amp;''
   \<and> escapeHtml ns (Str '''') = '''' \<and> escapeHtml ns Null = ''''
   \<and> escapeHtml ns Undefined = ''''"
proof -
  have eq: "escapeHtml ns v = concat (map entity (if truthy v then String ns v else ''''))"
    by (simp add: escapeHtml_def escape_passes_entity)
  show ?thesis
    unfolding eq using concat_entity_clean
    by (simp add: escapeHtml_def entity_def)
qed

section \<open>Strings and sorting\<close>

lemma startsWith_prefix: "startsWith s p = prefix p s"
  unfolding startsWith_def prefix_def
  by (metis append_eq_conv_conj append_take_drop_id)

lemma includes_sublist: "includes' s t = sublist t s"
  by (induction s) (auto simp: startsWith_prefix sublist_Cons_right)

lemma toLowerCase_Nil: "toLowerCase s = [] \<longleftrightarrow> s = []"
  by (simp add: toLowerCase_def)

lemma set_insert_by: "set (insert_by cmp x ys) = insert x (set ys)"
  by (induction ys) auto

lemma mset_insert_by: "mset (insert_by cmp x ys) = add_mset x (mset ys)"
  by (induction ys) auto

lemma array_sort_Nil: "array_sort cmp [] = []"
  by (simp add: array_sort_def)

lemma array_sort_Cons: "array_sort cmp (x # xs) = insert_by cmp x (array_sort cmp xs)"
  by (simp add: array_sort_def)

lemma mset_array_sort: "mset (array_sort cmp xs) = mset xs"
  by (induction xs) (simp_all add: array_sort_Nil array_sort_Cons mset_insert_by)

lemma set_array_sort: "set (array_sort cmp xs) = set xs"
  using mset_array_sort [of cmp xs] by (metis set_mset_mset)

lemma sorted_insert_by:
  assumes tot: "\<And>a b. \<not> cmp a b \<le> 0 \<Longrightarrow> cmp b a \<le> 0"
    and tr: "\<And>b c. b \<in> set ys \<Longrightarrow> c \<in> set ys \<Longrightarrow> cmp x b \<le> 0 \<Longrightarrow> cmp b c \<le> 0 \<Longrightarrow> cmp x c \<le> 0"
    and srt: "sorted_wrt (\<lambda>a b. cmp a b \<le> 0) ys"
  shows "sorted_wrt (\<lambda>a b. cmp a b \<le> 0) (insert_by cmp x ys)"
  using tr srt
proof (induction ys)
  case Nil
  then show ?case by simp
next
  case (Cons y ys)
  have tail: "sorted_wrt (\<lambda>a b. cmp a b \<le> 0) ys" and hd: "\<forall>z\<in>set ys. cmp y z \<le> 0"
    using Cons.prems(2) by simp_all
  show ?case
  proof (cases "cmp x y \<le> 0")
    case True
    have "cmp x z \<le> 0" if "z \<in> set ys" for z
      using Cons.prems(1) [of y z] that True hd by simp
    with True Cons.prems(2) show ?thesis by simp
  next
    case False
    have "sorted_wrt (\<lambda>a b. cmp a b \<le> 0) (insert_by cmp x ys)"
    proof (rule Cons.IH)
      show "cmp x c \<le> 0" if "b \<in> set ys" "c \<in> set ys" "cmp x b \<le> 0" "cmp b c \<le> 0" for b c
        using Cons.prems(1) [of b c] that by simp
    qed (rule tail)
    moreover have "cmp y x \<le> 0" using False tot by blast
    ultimately show ?thesis
      using False hd by (simp add: set_insert_by)
  qed
qed

lemma sorted_array_sort:
  assumes tot: "\<And>a b. \<not> cmp a b \<le> 0 \<Longrightarrow> cmp b a \<le> 0"
    and tr: "\<And>a b c. a \<in> set xs \<Longrightarrow> b \<in> set xs \<Longrightarrow> c \<in> set xs \<Longrightarrow>
               cmp a b \<le> 0 \<Longrightarrow> cmp b c \<le> 0 \<Longrightarrow> cmp a c \<le> 0"
  shows "sorted_wrt (\<lambda>a b. cmp a b \<le> 0) (array_sort cmp xs)"
  using tr
proof (induction xs)
  case Nil
  show ?case by (simp add: array_sort_Nil)
next
  case (Cons x xs)
  have ih: "sorted_wrt (\<lambda>a b. cmp a b \<le> 0) (array_sort cmp xs)"
  proof (rule Cons.IH)
    show "cmp a c \<le> 0"
      if "a \<in> set xs" "b \<in> set xs" "c \<in> set xs" "cmp a b \<le> 0" "cmp b c \<le> 0" for a b c
      using Cons.prems [of a b c] that by simp
  qed
  show ?case
    unfolding array_sort_Cons
  proof (rule sorted_insert_by [OF tot _ ih])
    show "cmp x c \<le> 0"
      if "b \<in> set (array_sort cmp xs)" "c \<in> set (array_sort cmp xs)" "cmp x b \<le> 0" "cmp b c \<le> 0"
      for b c
      using Cons.prems [of x b c] that by (simp add: set_array_sort)
  qed
qed

lemma filter_insert_by:
  assumes "\<And>y. P x \<Longrightarrow> y \<in> set ys \<Longrightarrow> P y \<Longrightarrow> cmp x y \<le> 0"
  shows "filter P (insert_by cmp x ys) = filter P (x # ys)"
  using assms by (induction ys) auto

lemma stable_array_sort:
  assumes "\<And>x y. x \<in> set xs \<Longrightarrow> y \<in> set xs \<Longrightarrow> P x \<Longrightarrow> P y \<Longrightarrow> cmp x y \<le> 0"
  shows "filter P (array_sort cmp xs) = filter P xs"
  using assms
proof (induction xs)
  case Nil
  show ?case by (simp add: array_sort_Nil)
next
  case (Cons x xs)
  have "filter P (insert_by cmp x (array_sort cmp xs)) = filter P (x # array_sort cmp xs)"
    by (rule filter_insert_by) (simp add: set_array_sort Cons.prems)
  moreover have "filter P (array_sort cmp xs) = filter P xs"
    using Cons.IH Cons.prems by (meson list.set_intros(2))
  ultimately show ?case by (simp add: array_sort_Cons)
qed

lemma insert_by_last:
  "\<forall>z\<in>set zs. \<not> cmp y z \<le> 0 \<Longrightarrow> insert_by cmp y zs = zs @ [y]"
  by (induction zs) auto

lemma array_sort_reverses:
  assumes "sorted_wrt (\<lambda>a b. \<not> cmp a b \<le> 0) ys"
  shows "array_sort cmp ys = rev ys"
  using assms
proof (induction ys)
  case Nil
  show ?case by (simp add: array_sort_Nil)
next
  case (Cons y ys)
  then have "array_sort cmp ys = rev ys" and "\<forall>z\<in>set ys. \<not> cmp y z \<le> 0" by simp_all
  then show ?case by (simp add: array_sort_Cons insert_by_last)
qed

section \<open>The summary total\<close>

lemma foldl_plus: "foldl (\<lambda>sum r. sum + f r) (a::rat) xs = a + sum_list (map f xs)"
  by (induction xs arbitrary: a) (simp_all add: add.assoc)

lemma heap_sortData: "heap (sortData ns st) = heap st"
  by (simp add: sortData_def)

lemma heap_updateSummary: "heap (updateSummary st) = heap st"
  by (simp add: updateSummary_def)

lemma filteredData_updateSummary: "filteredData (updateSummary st) = filteredData st"
  by (simp add: updateSummary_def)

lemma totalCost_updateSummary:
  "totalCost (updateSummary st) = sum_list (map (\<lambda>r. calculateSubTotal (heap st r)) (filteredData st))"
  by (simp add: updateSummary_def foldl_plus)

lemma calculateSubTotal_cases:
  "calculateSubTotal it = (case subTotal it of Some s \<Rightarrow> s | None \<Rightarrow> claimed_subtotal it)"
  by (simp add: calculateSubTotal_def claimed_subtotal_def split: option.splits)

text \<open>
  C1, as stated, fails: on the page of the three example rows the summary total is 55
  (the hall counts with its stored subtotal 5), while unit cost times quantity-or-one
  summed over the same view is 250.
\<close>

theorem summary_total_counterexample:
  "totalCost (handleFilterChange String_whole ex_page) = 55
   \<and> sum_list (map (claimed_subtotal \<circ> heap (handleFilterChange String_whole ex_page))
        (filteredData (handleFilterChange String_whole ex_page))) = 250"
  by code_simp

text \<open>
  C1, amended. The summary total is the sum of \<open>calculateSubTotal\<close> over exactly the
  items of the view, after \<open>updateSummary\<close> and after \<open>renderTable\<close>: an item counts with
  its stored subtotal when it has one, and with unit cost (0 when missing) times
  quantity (1 when missing) otherwise. When no item of the view has a stored subtotal,
  the total is the sum of unit cost times quantity-or-one.
\<close>

theorem summary_total:
  "totalCost (updateSummary st)
     = sum_list (map (\<lambda>r. calculateSubTotal (heap (updateSummary st) r)) (filteredData (updateSummary st)))
   \<and> totalCost (renderTable ns st)
     = sum_list (map (\<lambda>r. calculateSubTotal (heap (renderTable ns st) r)) (filteredData (renderTable ns st)))
   \<and> calculateSubTotal it = (case subTotal it of Some s \<Rightarrow> s | None \<Rightarrow> claimed_subtotal it)
   \<and> ((\<forall>r\<in>set (filteredData (renderTable ns st)). subTotal (heap st r) = None) \<longrightarrow>
        totalCost (renderTable ns st)
          = sum_list (map (\<lambda>r. claimed_subtotal (heap st r)) (filteredData (renderTable ns st))))"
proof -
  have a: "totalCost (updateSummary st)
     = sum_list (map (\<lambda>r. calculateSubTotal (heap (updateSummary st) r)) (filteredData (updateSummary st)))"
    for st
    by (simp add: totalCost_updateSummary heap_updateSummary filteredData_updateSummary)
  have b: "totalCost (renderTable ns st)
     = sum_list (map (\<lambda>r. calculateSubTotal (heap (renderTable ns st) r)) (filteredData (renderTable ns st)))"
    unfolding renderTable_def by (rule a [of "sortData ns st"])
  have h: "heap (renderTable ns st) = heap st"
    by (simp add: renderTable_def heap_updateSummary heap_sortData)
  have c: "totalCost (renderTable ns st)
          = sum_list (map (\<lambda>r. claimed_subtotal (heap st r)) (filteredData (renderTable ns st)))"
    if "\<forall>r\<in>set (filteredData (renderTable ns st)). subTotal (heap st r) = None"
  proof -
    have "map (\<lambda>r. calculateSubTotal (heap st r)) (filteredData (renderTable ns st))
        = map (\<lambda>r. claimed_subtotal (heap st r)) (filteredData (renderTable ns st))"
      using that by (intro map_cong) (simp_all add: calculateSubTotal_cases)
    with b h show ?thesis by simp
  qed
  show ?thesis using a b c calculateSubTotal_cases by blast
qed

theorem summary_total_witness:
  "list_all (\<lambda>r. subTotal (heap ex_plain r) = None) (filteredData (renderTable String_whole ex_plain))
   \<and> totalCost (renderTable String_whole ex_plain) = 250
   \<and> sum_list (map (\<lambda>r. claimed_subtotal (heap ex_plain r)) (filteredData (renderTable String_whole ex_plain))) = 250"
proof -
  have h: "\<forall>r\<in>set (filteredData (renderTable String_whole ex_plain)). subTotal (heap ex_plain r) = None"
    by code_simp
  have v: "sum_list (map (\<lambda>r. claimed_subtotal (heap ex_plain r)) (filteredData (renderTable String_whole ex_plain))) = 250"
    by code_simp
  have "totalCost (renderTable String_whole ex_plain)
          = sum_list (map (\<lambda>r. claimed_subtotal (heap ex_plain r))
              (filteredData (renderTable String_whole ex_plain)))"
    using summary_total [of ex_plain String_whole] h by blast
  with h v show ?thesis by (simp add: list_all_iff)
qed

section \<open>The sort key of the subtotal column\<close>

lemma blank_if_missing_Num: "blank_if_missing (Num n) = Num n"
  by (simp add: blank_if_missing_def)

lemma sort_value_subTotal: "sort_value ''subTotal'' a = Num (calculateSubTotal a)"
  by (simp add: sort_value_def blank_if_missing_Num)

text \<open>
  C2, as stated, fails: the hall of the example page is sorted by its stored subtotal
  5, not by 100 times 2, so sorting by subtotal puts it before the chairs (50), and
  the computed values along the sorted view, 0, 200, 50, are not in order.
\<close>

theorem subtotal_sort_key_counterexample:
  "sort_value ''subTotal'' (heap ex_page 0) = Num 5
   \<and> claimed_subtotal (heap ex_page 0) = 200
   \<and> subTotal (heap ex_page 0) = Some 5
   \<and> map (id' \<circ> heap ex_page) (filteredData (sortClick String_whole ''subTotal'' ex_page))
       = [Num 3, Num 1, Num 2]
   \<and> map (claimed_subtotal \<circ> heap ex_page) (filteredData (sortClick String_whole ''subTotal'' ex_page))
       = [0, 200, 50]"
  by code_simp

text \<open>
  C2, amended. When the sort field is the subtotal column, the sort key of every item is
  \<open>calculateSubTotal\<close> of it, compared as a number: the stored subtotal when the item
  has one, and unit cost times quantity-or-one otherwise.
\<close>

theorem subtotal_sort_key:
  "sort_value ''subTotal'' a = Num (case subTotal a of Some s \<Rightarrow> s | None \<Rightarrow> claimed_subtotal a)
   \<and> sortData_cmp ns ''subTotal'' up a b
       = (if up then calculateSubTotal a - calculateSubTotal b
          else calculateSubTotal b - calculateSubTotal a)
   \<and> calculateSubTotal a = (case subTotal a of Some s \<Rightarrow> s | None \<Rightarrow> claimed_subtotal a)"
  by (simp add: sort_value_subTotal sortData_cmp_def calculateSubTotal_cases)

section \<open>Filtering\<close>

lemma search_match:
  assumes "t \<noteq> []"
  shows "(truthy_str v \<and> includes' (toLowerCase (the v)) (toLowerCase t)) = ci_substring t v"
proof (cases v)
  case None
  then show ?thesis by (simp add: truthy_str_def ci_substring_def)
next
  case (Some s)
  show ?thesis
  proof (cases "s = []")
    case True
    with Some assms show ?thesis
      by (simp add: truthy_str_def ci_substring_def toLowerCase_Nil toLowerCase_def)
  next
    case False
    with Some show ?thesis
      by (simp add: truthy_str_def ci_substring_def includes_sublist)
  qed
qed

lemma lower_y: "lower_char c = CHR ''y'' \<longleftrightarrow> c = CHR ''y'' \<or> c = CHR ''Y''"
  by (auto simp add: lower_char_def upper_letters_def lower_letters_def)

lemma required_match:
  "(truthy_str v \<and> startsWith (toLowerCase (the v)) ''y'') = begins_with_y v"
proof (cases v)
  case None
  then show ?thesis by (simp add: truthy_str_def begins_with_y_def)
next
  case (Some s)
  then show ?thesis
    by (cases s) (auto simp: truthy_str_def begins_with_y_def startsWith_def toLowerCase_def lower_y)
qed

lemma keep_claimed:
  "applyFilters_keep (toLowerCase t) cat req it = claimed_keep t cat req it"
proof (cases "t = []")
  case True
  then show ?thesis
    by (simp add: applyFilters_keep_def claimed_keep_def required_match toLowerCase_Nil)
next
  case False
  then have "toLowerCase t \<noteq> []" by (simp add: toLowerCase_Nil)
  then show ?thesis
    using False
    by (simp add: applyFilters_keep_def claimed_keep_def required_match search_match)
qed

text \<open>
  C3. Whatever the canonical collection and the three controls hold, \<open>applyFilters\<close>
  keeps exactly the canonical items for which: the search term (the text of the search
  box without the white space around it) is empty or is, letter case aside, a substring
  of the item's name or of its category; the selected category is empty or equal to the
  item's category; the check box is not set or the item's \<open>required\<close> text begins with
  \<open>y\<close> or \<open>Y\<close>. The result is a subsequence of the canonical collection, which is left
  as it was.
\<close>

theorem applyFilters_exact:
  "filteredData (applyFilters st)
     = filter (\<lambda>r. claimed_keep (trim (searchInput st)) (categoryFilter st) (requiredFilter st)
                     (heap st r))
         (originalData st)
   \<and> subseq (filteredData (applyFilters st)) (originalData st)
   \<and> originalData (applyFilters st) = originalData st
   \<and> heap (applyFilters st) = heap st"
  by (simp add: applyFilters_def keep_claimed)

theorem applyFilters_exact_witness:
  "filteredData (applyFilters ex_search) = [0]
   \<and> filter (\<lambda>r. claimed_keep (trim (searchInput ex_search)) (categoryFilter ex_search)
                    (requiredFilter ex_search) (heap ex_search r)) (originalData ex_search) = [0]
   \<and> \<not> requiredFilter ex_search
   \<and> subseq [0] (originalData ex_search)"
proof -
  have "filteredData (applyFilters ex_search) = [0]" by code_simp
  moreover have "\<not> requiredFilter ex_search" by code_simp
  ultimately show ?thesis using applyFilters_exact [of ex_search] by metis
qed

section \<open>Sorting the view\<close>

text \<open>
  The value \<open>sortData\<close> compares is the one the specification words: the coercion of
  the code and the replacement of the specification agree on every item and column.
\<close>

lemma sort_value_claimed: "sort_value k it = claimed_key k it"
  by (cases "get_field k it")
     (simp_all add: sort_value_def blank_if_missing_def claimed_key_def claimed_field_def
        calculateSubTotal_cases)

lemma cmp_le_key:
  "sortData_cmp ns k up a b \<le> 0 \<longleftrightarrow>
     (if up then key_le ns (sort_value k a) (sort_value k b)
      else key_le ns (sort_value k b) (sort_value k a))"
  by (cases "sort_value k a"; cases "sort_value k b")
     (auto simp: sortData_cmp_def key_le_def Let_def)

lemma cmp_le_iff: "sortData_cmp ns k up a b \<le> 0 \<longleftrightarrow> claimed_before ns k up a b"
  by (simp add: cmp_le_key claimed_before_def sort_value_claimed)

lemma cmp_swap: "sortData_cmp ns k up b a = - sortData_cmp ns k up a b"
  by (cases "sort_value k a"; cases "sort_value k b")
     (auto simp: sortData_cmp_def Let_def)

lemma cmp_flip: "sortData_cmp ns k False a b = - sortData_cmp ns k True a b"
  by (cases "sort_value k a"; cases "sort_value k b")
     (auto simp: sortData_cmp_def Let_def)

lemma cmp_direction:
  "sortData_cmp ns k up a b = (if up then sortData_cmp ns k True a b else sortData_cmp ns k True b a)"
  using cmp_flip [of ns k a b] cmp_swap [of ns k True b a] by simp

lemma cmp_refs_direction:
  "cmp_refs ns k up st a b = (if up then cmp_refs ns k True st a b else cmp_refs ns k True st b a)"
  unfolding cmp_refs_def by (rule cmp_direction)

lemma cmp_refs_total: "\<not> cmp_refs ns k up st a b \<le> 0 \<Longrightarrow> cmp_refs ns k up st b a \<le> 0"
  unfolding cmp_refs_def using cmp_swap [of ns k up "heap st b" "heap st a"] by simp

lemma cmp_refs_zero_sym: "cmp_refs ns k up st a b = 0 \<Longrightarrow> cmp_refs ns k up st b a = 0"
  unfolding cmp_refs_def using cmp_swap [of ns k up "heap st b" "heap st a"] by simp

lemma consistentD:
  assumes "consistent ns k st xs" "a \<in> set xs" "b \<in> set xs" "c \<in> set xs"
    and "cmp_refs ns k up st a b \<le> 0" "cmp_refs ns k up st b c \<le> 0"
  shows "cmp_refs ns k up st a c \<le> 0"
proof (cases up)
  case True
  then have "cmp_refs ns k True st a b \<le> 0" "cmp_refs ns k True st b c \<le> 0"
    using assms(5,6) by simp_all
  then have "cmp_refs ns k True st a c \<le> 0"
    using assms(1-4) unfolding consistent_def by blast
  with True show ?thesis by simp
next
  case False
  then have "cmp_refs ns k True st c b \<le> 0" "cmp_refs ns k True st b a \<le> 0"
    using assms(5,6) cmp_refs_direction [of ns k up st] by simp_all
  then have "cmp_refs ns k True st c a \<le> 0"
    using assms(1-4) unfolding consistent_def by blast
  with False show ?thesis using cmp_refs_direction [of ns k up st a c] by simp
qed

lemma filteredData_sortData:
  "filteredData (sortData ns st)
     = array_sort (cmp_refs ns (key (currentSort st)) (asc (currentSort st)) st) (filteredData st)"
proof -
  have "cmp_refs ns (key (currentSort st)) (asc (currentSort st)) st
      = (\<lambda>a b. sortData_cmp ns (key (currentSort st)) (asc (currentSort st)) (heap st a) (heap st b))"
    by (intro ext) (simp add: cmp_refs_def)
  then show ?thesis by (simp add: sortData_def)
qed

lemma sortData_sorted:
  assumes "consistent ns (key (currentSort st)) st (filteredData st)"
  shows "sorted_wrt (\<lambda>a b. cmp_refs ns (key (currentSort st)) (asc (currentSort st)) st a b \<le> 0)
           (filteredData (sortData ns st))"
  unfolding filteredData_sortData
proof (rule sorted_array_sort)
  show "cmp_refs ns (key (currentSort st)) (asc (currentSort st)) st b a \<le> 0"
    if "\<not> cmp_refs ns (key (currentSort st)) (asc (currentSort st)) st a b \<le> 0" for a b
    using that by (rule cmp_refs_total)
  show "cmp_refs ns (key (currentSort st)) (asc (currentSort st)) st a c \<le> 0"
    if "a \<in> set (filteredData st)" "b \<in> set (filteredData st)" "c \<in> set (filteredData st)"
      "cmp_refs ns (key (currentSort st)) (asc (currentSort st)) st a b \<le> 0"
      "cmp_refs ns (key (currentSort st)) (asc (currentSort st)) st b c \<le> 0" for a b c
    using consistentD [OF assms that] .
qed

lemma sortData_stable:
  assumes cons: "consistent ns (key (currentSort st)) st (filteredData st)"
    and r: "r \<in> set (filteredData st)"
  shows "filter (tie ns (key (currentSort st)) st r) (filteredData (sortData ns st))
           = filter (tie ns (key (currentSort st)) st r) (filteredData st)"
  unfolding filteredData_sortData
proof (rule stable_array_sort)
  fix x y
  assume x: "x \<in> set (filteredData st)" and y: "y \<in> set (filteredData st)"
    and tx: "tie ns (key (currentSort st)) st r x" and ty: "tie ns (key (currentSort st)) st r y"
  let ?c = "cmp_refs ns (key (currentSort st))"
  have rx: "?c True st r x = 0" and ry: "?c True st r y = 0"
    using tx ty by (simp_all add: tie_def)
  have xr: "?c True st x r = 0" and yr: "?c True st y r = 0"
    using rx ry by (simp_all add: cmp_refs_zero_sym)
  have "?c True st x y \<le> 0"
    using consistentD [OF cons x r y, of True] xr ry by simp
  moreover have "?c True st y x \<le> 0"
    using consistentD [OF cons y r x, of True] yr rx by simp
  ultimately show "?c (asc (currentSort st)) st x y \<le> 0"
    using cmp_refs_direction [of ns "key (currentSort st)" "asc (currentSort st)" st x y] by simp
qed

lemma consistent_numbers:
  assumes "\<forall>r\<in>set xs. is_number (sort_value k (heap st r))"
  shows "consistent ns k st xs"
  unfolding consistent_def cmp_refs_def cmp_le_key key_le_def
  using assms by auto

lemma consistent_no_numbers:
  assumes "\<forall>r\<in>set xs. \<not> is_number (sort_value k (heap st r))"
  shows "consistent ns k st xs"
  unfolding consistent_def cmp_refs_def cmp_le_key key_le_def
  using assms by auto

lemma consistent_subTotal: "consistent ns ''subTotal'' st xs"
  by (rule consistent_numbers) (simp add: sort_value_subTotal)

text \<open>
  A column that mixes numbers with other values is consistent when the numbers, as
  text, all come after the other values (numbers and nulls: the empty text is below any
  number's text) or all come before them (numeric identifiers and the identifier of
  the unsaved row).
\<close>

lemma consistent_numbers_last:
  assumes "\<And>a b. a \<in> set xs \<Longrightarrow> b \<in> set xs \<Longrightarrow> is_number (sort_value k (heap st a))
      \<Longrightarrow> \<not> is_number (sort_value k (heap st b))
      \<Longrightarrow> toLowerCase (String ns (sort_value k (heap st b)))
            < toLowerCase (String ns (sort_value k (heap st a)))"
  shows "consistent ns k st xs"
  unfolding consistent_def cmp_refs_def cmp_le_key key_le_def
proof (intro ballI impI)
  fix a b c
  assume m: "a \<in> set xs" "b \<in> set xs" "c \<in> set xs"
  let ?v = "\<lambda>x. sort_value k (heap st x)"
  let ?t = "\<lambda>x. toLowerCase (String ns (?v x))"
  assume ab: "if True then if is_number (?v a) \<and> is_number (?v b)
        then the (num_of (?v a)) \<le> the (num_of (?v b)) else ?t a \<le> ?t b
      else if is_number (?v b) \<and> is_number (?v a)
        then the (num_of (?v b)) \<le> the (num_of (?v a)) else ?t b \<le> ?t a"
    and bc: "if True then if is_number (?v b) \<and> is_number (?v c)
        then the (num_of (?v b)) \<le> the (num_of (?v c)) else ?t b \<le> ?t c
      else if is_number (?v c) \<and> is_number (?v b)
        then the (num_of (?v c)) \<le> the (num_of (?v b)) else ?t c \<le> ?t b"
  have low: "?t y < ?t x" if "x \<in> set xs" "y \<in> set xs" "is_number (?v x)" "\<not> is_number (?v y)" for x y
    using assms that by blast
  have "if is_number (?v a) \<and> is_number (?v c)
        then the (num_of (?v a)) \<le> the (num_of (?v c)) else ?t a \<le> ?t c"
  proof (cases "is_number (?v a)"; cases "is_number (?v b)"; cases "is_number (?v c)")
    assume "is_number (?v a)" "is_number (?v b)" "is_number (?v c)"
    with ab bc show ?thesis by simp
  next
    assume "is_number (?v a)" "is_number (?v b)" "\<not> is_number (?v c)"
    with bc low [OF m(2) m(3)] show ?thesis by simp
  next
    assume "is_number (?v a)" "\<not> is_number (?v b)" "is_number (?v c)"
    with ab low [OF m(1) m(2)] show ?thesis by simp
  next
    assume "is_number (?v a)" "\<not> is_number (?v b)" "\<not> is_number (?v c)"
    with ab low [OF m(1) m(2)] show ?thesis by simp
  next
    assume "\<not> is_number (?v a)" "is_number (?v b)" "is_number (?v c)"
    with low [OF m(3) m(1)] show ?thesis by simp
  next
    assume "\<not> is_number (?v a)" "is_number (?v b)" "\<not> is_number (?v c)"
    with bc low [OF m(2) m(3)] show ?thesis by simp
  next
    assume "\<not> is_number (?v a)" "\<not> is_number (?v b)" "is_number (?v c)"
    with low [OF m(3) m(1)] show ?thesis by simp
  next
    assume "\<not> is_number (?v a)" "\<not> is_number (?v b)" "\<not> is_number (?v c)"
    with ab bc show ?thesis by simp
  qed
  then show "if True then if is_number (?v a) \<and> is_number (?v c)
        then the (num_of (?v a)) \<le> the (num_of (?v c)) else ?t a \<le> ?t c
      else if is_number (?v c) \<and> is_number (?v a)
        then the (num_of (?v c)) \<le> the (num_of (?v a)) else ?t c \<le> ?t a"
    by simp
qed

lemma consistent_numbers_first:
  assumes "\<And>a b. a \<in> set xs \<Longrightarrow> b \<in> set xs \<Longrightarrow> is_number (sort_value k (heap st a))
      \<Longrightarrow> \<not> is_number (sort_value k (heap st b))
      \<Longrightarrow> toLowerCase (String ns (sort_value k (heap st a)))
            < toLowerCase (String ns (sort_value k (heap st b)))"
  shows "consistent ns k st xs"
  unfolding consistent_def cmp_refs_def cmp_le_key key_le_def
proof (intro ballI impI)
  fix a b c
  assume m: "a \<in> set xs" "b \<in> set xs" "c \<in> set xs"
  let ?v = "\<lambda>x. sort_value k (heap st x)"
  let ?t = "\<lambda>x. toLowerCase (String ns (?v x))"
  assume ab: "if True then if is_number (?v a) \<and> is_number (?v b)
        then the (num_of (?v a)) \<le> the (num_of (?v b)) else ?t a \<le> ?t b
      else if is_number (?v b) \<and> is_number (?v a)
        then the (num_of (?v b)) \<le> the (num_of (?v a)) else ?t b \<le> ?t a"
    and bc: "if True then if is_number (?v b) \<and> is_number (?v c)
        then the (num_of (?v b)) \<le> the (num_of (?v c)) else ?t b \<le> ?t c
      else if is_number (?v c) \<and> is_number (?v b)
        then the (num_of (?v c)) \<le> the (num_of (?v b)) else ?t c \<le> ?t b"
  have low: "?t x < ?t y" if "x \<in> set xs" "y \<in> set xs" "is_number (?v x)" "\<not> is_number (?v y)" for x y
    using assms that by blast
  have "if is_number (?v a) \<and> is_number (?v c)
        then the (num_of (?v a)) \<le> the (num_of (?v c)) else ?t a \<le> ?t c"
  proof (cases "is_number (?v a)"; cases "is_number (?v b)"; cases "is_number (?v c)")
    assume "is_number (?v a)" "is_number (?v b)" "is_number (?v c)"
    with ab bc show ?thesis by simp
  next
    assume "is_number (?v a)" "is_number (?v b)" "\<not> is_number (?v c)"
    with low [OF m(1) m(3)] show ?thesis by simp
  next
    assume "is_number (?v a)" "\<not> is_number (?v b)" "is_number (?v c)"
    with bc low [OF m(3) m(2)] show ?thesis by simp
  next
    assume "is_number (?v a)" "\<not> is_number (?v b)" "\<not> is_number (?v c)"
    with low [OF m(1) m(3)] show ?thesis by simp
  next
    assume "\<not> is_number (?v a)" "is_number (?v b)" "is_number (?v c)"
    with ab low [OF m(2) m(1)] show ?thesis by simp
  next
    assume "\<not> is_number (?v a)" "is_number (?v b)" "\<not> is_number (?v c)"
    with ab low [OF m(2) m(1)] show ?thesis by simp
  next
    assume "\<not> is_number (?v a)" "\<not> is_number (?v b)" "is_number (?v c)"
    with bc low [OF m(3) m(2)] show ?thesis by simp
  next
    assume "\<not> is_number (?v a)" "\<not> is_number (?v b)" "\<not> is_number (?v c)"
    with ab bc show ?thesis by simp
  qed
  then show "if True then if is_number (?v a) \<and> is_number (?v c)
        then the (num_of (?v a)) \<le> the (num_of (?v c)) else ?t a \<le> ?t c
      else if is_number (?v c) \<and> is_number (?v a)
        then the (num_of (?v c)) \<le> the (num_of (?v a)) else ?t c \<le> ?t a"
    by simp
qed

lemma consistent_numbers_or_blank:
  assumes ns: "\<forall>n. ns n \<noteq> []"
    and vals: "\<forall>r\<in>set xs. is_number (sort_value k (heap st r)) \<or> sort_value k (heap st r) = Str []"
  shows "consistent ns k st xs"
proof (rule consistent_numbers_last)
  fix a b
  assume "a \<in> set xs" "b \<in> set xs" and n: "is_number (sort_value k (heap st a))"
    and "\<not> is_number (sort_value k (heap st b))"
  then have blank: "sort_value k (heap st b) = Str []" using vals by blast
  obtain x where x: "sort_value k (heap st a) = Num x"
    using n by (cases "sort_value k (heap st a)") simp_all
  obtain c cs where "ns x = c # cs" using ns by (cases "ns x") auto
  then show "toLowerCase (String ns (sort_value k (heap st b)))
      < toLowerCase (String ns (sort_value k (heap st a)))"
    by (simp add: blank x toLowerCase_def)
qed

text \<open>
  C4. The value \<open>sortData\<close> compares two items by is the value of the selected field
  with null and undefined replaced by the empty string. Its comparator puts \<open>a\<close> before
  or level with \<open>b\<close> exactly when that value of \<open>a\<close> is at most that of \<open>b\<close>: as
  numbers when both values are numbers, as lower-case text otherwise; with \<open>asc\<close> false
  the comparison is the opposite one. Where that order is consistent on the view (as it
  is for a column of numbers, a column of texts, a column of numbers and nulls, and, by
  \<open>reachable_consistent\<close> below, for every column in every state the page reaches),
  \<open>sortData\<close> rearranges the view into that order, and the items that tie with any
  given item keep the order they had before.
\<close>

theorem sortData_ordered:
  assumes "consistent ns (key (currentSort st)) st (filteredData st)"
  shows "sort_value k a = claimed_key k a
    \<and> (sortData_cmp ns k up a b \<le> 0 \<longleftrightarrow> claimed_before ns k up a b)
    \<and> sortData_cmp ns k False a b = - sortData_cmp ns k True a b
    \<and> mset (filteredData (sortData ns st)) = mset (filteredData st)
    \<and> sorted_wrt (\<lambda>r s. claimed_before ns (key (currentSort st)) (asc (currentSort st))
                          (heap st r) (heap st s))
        (filteredData (sortData ns st))
    \<and> (\<forall>r\<in>set (filteredData st).
          filter (tie ns (key (currentSort st)) st r) (filteredData (sortData ns st))
            = filter (tie ns (key (currentSort st)) st r) (filteredData st))
    \<and> heap (sortData ns st) = heap st
    \<and> originalData (sortData ns st) = originalData st
    \<and> currentSort (sortData ns st) = currentSort st"
proof -
  have "sorted_wrt (\<lambda>r s. claimed_before ns (key (currentSort st)) (asc (currentSort st))
                          (heap st r) (heap st s))
        (filteredData (sortData ns st))"
    using sortData_sorted [OF assms] by (simp add: cmp_refs_def cmp_le_iff)
  moreover have "mset (filteredData (sortData ns st)) = mset (filteredData st)"
    by (simp add: filteredData_sortData mset_array_sort)
  moreover have "\<forall>r\<in>set (filteredData st).
          filter (tie ns (key (currentSort st)) st r) (filteredData (sortData ns st))
            = filter (tie ns (key (currentSort st)) st r) (filteredData st)"
    using sortData_stable [OF assms] by blast
  moreover have "heap (sortData ns st) = heap st" "originalData (sortData ns st) = originalData st"
    "currentSort (sortData ns st) = currentSort st"
    by (simp_all add: sortData_def)
  ultimately show ?thesis
    using cmp_le_iff [of ns k up a b] cmp_flip [of ns k a b] sort_value_claimed [of k a] by blast
qed

text \<open>
  On the example page sorted by unit cost the bouquet, whose unit cost is null, is
  compared as the empty text and comes first, before the chairs (50) and the hall
  (100); sorted by category, the two items of the venue keep their order.
\<close>

theorem sortData_ordered_witness:
  "consistent String_whole (key (currentSort ex_by_cost)) ex_by_cost (filteredData ex_by_cost)
   \<and> key (currentSort ex_by_cost) = ''unitCost'' \<and> asc (currentSort ex_by_cost)
   \<and> map (\<lambda>r. get_field ''unitCost'' (heap ex_by_cost r)) (filteredData ex_by_cost)
       = [Num 100, Num 50, Null]
   \<and> sort_value ''unitCost'' (heap ex_by_cost 2) = Str []
   \<and> claimed_key ''unitCost'' (heap ex_by_cost 2) = Str []
   \<and> filteredData ex_by_cost = [0, 1, 2]
   \<and> filteredData (sortData String_whole ex_by_cost) = [2, 1, 0]
   \<and> sorted_wrt (\<lambda>r s. claimed_before String_whole (key (currentSort ex_by_cost))
                          (asc (currentSort ex_by_cost)) (heap ex_by_cost r) (heap ex_by_cost s))
        [2, 1, 0]
   \<and> \<not> claimed_before String_whole ''unitCost'' True (heap ex_by_cost 1) (heap ex_by_cost 2)
   \<and> consistent String_whole (key (currentSort ex_by_category)) ex_by_category
        (filteredData ex_by_category)
   \<and> filteredData ex_by_category = [0, 1, 2]
   \<and> filteredData (sortData String_whole ex_by_category) = [2, 0, 1]
   \<and> tie String_whole ''category'' ex_by_category 0 1
   \<and> filter (tie String_whole (key (currentSort ex_by_category)) ex_by_category 0)
        (filteredData (sortData String_whole ex_by_category)) = [0, 1]"
proof -
  have n: "consistent String_whole (key (currentSort ex_by_cost)) ex_by_cost
             (filteredData ex_by_cost)"
    by code_simp
  have w: "key (currentSort ex_by_cost) = ''unitCost''" "asc (currentSort ex_by_cost)"
    "map (\<lambda>r. get_field ''unitCost'' (heap ex_by_cost r)) (filteredData ex_by_cost)
       = [Num 100, Num 50, Null]"
    "claimed_key ''unitCost'' (heap ex_by_cost 2) = Str []"
    "filteredData ex_by_cost = [0, 1, 2]"
    "filteredData (sortData String_whole ex_by_cost) = [2, 1, 0]"
    "\<not> claimed_before String_whole ''unitCost'' True (heap ex_by_cost 1) (heap ex_by_cost 2)"
    by code_simp+
  note t = sortData_ordered [OF n, of "''unitCost''" "heap ex_by_cost 2"]
  have blank: "sort_value ''unitCost'' (heap ex_by_cost 2) = Str []"
    using t w(4) by simp
  have sorted: "sorted_wrt (\<lambda>r s. claimed_before String_whole (key (currentSort ex_by_cost))
                          (asc (currentSort ex_by_cost)) (heap ex_by_cost r) (heap ex_by_cost s))
        [2, 1, 0]"
    using t unfolding w(6) by blast
  have c: "consistent String_whole (key (currentSort ex_by_category)) ex_by_category
             (filteredData ex_by_category)"
    by code_simp
  have v: "filteredData ex_by_category = [0, 1, 2]"
    "filteredData (sortData String_whole ex_by_category) = [2, 0, 1]"
    "tie String_whole ''category'' ex_by_category 0 1"
    "filter (tie String_whole (key (currentSort ex_by_category)) ex_by_category 0)
        (filteredData ex_by_category) = [0, 1]"
    by code_simp+
  have "filter (tie String_whole (key (currentSort ex_by_category)) ex_by_category 0)
          (filteredData (sortData String_whole ex_by_category))
        = filter (tie String_whole (key (currentSort ex_by_category)) ex_by_category 0)
          (filteredData ex_by_category)"
    using sortData_ordered [OF c] v(1) by simp
  with n w blank sorted c v show ?thesis by simp
qed

section \<open>Activating a column header\<close>

lemma sorted_wrt_distinct_mono:
  assumes "distinct xs" "sorted_wrt P xs"
    and "\<And>a b. a \<in> set xs \<Longrightarrow> b \<in> set xs \<Longrightarrow> a \<noteq> b \<Longrightarrow> P a b \<Longrightarrow> Q a b"
  shows "sorted_wrt Q xs"
  using assms
proof (induction xs)
  case Nil
  show ?case by simp
next
  case (Cons x xs)
  have "sorted_wrt Q xs"
    using Cons.IH Cons.prems by (simp add: list.set_intros)
  moreover have "Q x y" if "y \<in> set xs" for y
    using Cons.prems(1,2) that Cons.prems(3) [of x y] by auto
  ultimately show ?case by simp
qed

lemma cmp_refs_heap: "heap st' = heap st \<Longrightarrow> cmp_refs ns k up st' = cmp_refs ns k up st"
  by (intro ext) (simp add: cmp_refs_def)

lemma heap_renderTable: "heap (renderTable ns st) = heap st"
  by (simp add: renderTable_def heap_updateSummary heap_sortData)

lemma filteredData_renderTable:
  "filteredData (renderTable ns st)
     = array_sort (cmp_refs ns (key (currentSort st)) (asc (currentSort st)) st) (filteredData st)"
  by (simp add: renderTable_def filteredData_updateSummary filteredData_sortData)

lemma currentSort_renderTable: "currentSort (renderTable ns st) = currentSort st"
  by (simp add: renderTable_def updateSummary_def sortData_def)

lemma key_sortClick: "key (currentSort (sortClick ns k st)) = k"
  by (simp add: sortClick_def currentSort_renderTable)

lemma heap_sortClick: "heap (sortClick ns k st) = heap st"
  by (simp add: sortClick_def heap_renderTable)

lemma filteredData_sortClick:
  "filteredData (sortClick ns k st)
     = array_sort (cmp_refs ns k (asc (currentSort (sortClick ns k st))) st) (filteredData st)"
proof -
  let ?s = "st\<lparr>currentSort :=
             (if key (currentSort st) = k
              then (currentSort st)\<lparr>asc := \<not> asc (currentSort st)\<rparr>
              else \<lparr>key = k, asc = True\<rparr>)\<rparr>"
  have h: "heap ?s = heap st" by simp
  have k: "key (currentSort ?s) = k" by simp
  have a: "asc (currentSort (sortClick ns k st)) = asc (currentSort ?s)"
    by (simp add: sortClick_def currentSort_renderTable)
  have "filteredData (sortClick ns k st)
      = array_sort (cmp_refs ns (key (currentSort ?s)) (asc (currentSort ?s)) ?s) (filteredData ?s)"
    unfolding sortClick_def by (rule filteredData_renderTable)
  then show ?thesis
    unfolding a k cmp_refs_heap [OF h] by simp
qed

lemma asc_sortClick_twice:
  "asc (currentSort (sortClick ns k (sortClick ns k st))) = (\<not> asc (currentSort (sortClick ns k st)))"
  using key_sortClick [of ns k st]
  by (simp add: sortClick_def [of ns k "sortClick ns k st"] currentSort_renderTable)

lemma sortClick_other:
  "key (currentSort st) \<noteq> k \<Longrightarrow> currentSort (sortClick ns k st) = \<lparr>key = k, asc = True\<rparr>"
  by (simp add: sortClick_def currentSort_renderTable)

lemma cmp_refs_neg: "cmp_refs ns k (\<not> d) st a b = - cmp_refs ns k d st a b"
proof (cases d)
  case True
  then show ?thesis by (simp add: cmp_refs_def cmp_flip)
next
  case False
  then show ?thesis by (simp add: cmp_refs_def cmp_flip)
qed

lemma cmp_refs_zero_iff: "cmp_refs ns k d st a b = 0 \<longleftrightarrow> cmp_refs ns k True st a b = 0"
proof (cases d)
  case True
  then show ?thesis by simp
next
  case False
  then show ?thesis by (simp add: cmp_refs_def cmp_flip)
qed

text \<open>
  C5, amended. When the comparator of the column is consistent on the view (as it is in
  every state the page reaches, by \<open>reachable_consistent\<close> below) and no two items of
  the view tie on that column, activating the column's header twice gives the
  reverse of the order that activating it once gives, and the second activation turns
  the direction round. Activating the header of a column other than the current one
  sets the direction to ascending on the new column. (Items that tie keep their order
  in both directions, which is why views with ties are left out.)
\<close>

theorem sort_toggle:
  assumes cons: "consistent ns k st (filteredData st)"
    and nt: "no_ties ns k st (filteredData st)"
  shows "filteredData (sortClick ns k (sortClick ns k st)) = rev (filteredData (sortClick ns k st))
    \<and> asc (currentSort (sortClick ns k (sortClick ns k st)))
        = (\<not> asc (currentSort (sortClick ns k st)))
    \<and> (key (currentSort st) \<noteq> k' \<longrightarrow> currentSort (sortClick ns k' st) = \<lparr>key = k', asc = True\<rparr>)"
proof -
  let ?st1 = "sortClick ns k st"
  let ?d = "asc (currentSort ?st1)"
  let ?xs = "filteredData st"
  have fd1: "filteredData ?st1 = array_sort (cmp_refs ns k ?d st) ?xs"
    by (rule filteredData_sortClick)
  have set1: "set (filteredData ?st1) = set ?xs"
    unfolding fd1 by (rule set_array_sort)
  have dist1: "distinct (filteredData ?st1)"
  proof -
    have "distinct ?xs" using nt by (simp add: no_ties_def)
    then show ?thesis
      unfolding fd1 using mset_eq_imp_distinct_iff [OF mset_array_sort [of "cmp_refs ns k ?d st" ?xs]]
      by simp
  qed
  have sorted1: "sorted_wrt (\<lambda>a b. cmp_refs ns k ?d st a b \<le> 0) (filteredData ?st1)"
    unfolding fd1
  proof (rule sorted_array_sort)
    show "cmp_refs ns k ?d st b a \<le> 0" if "\<not> cmp_refs ns k ?d st a b \<le> 0" for a b
      using that by (rule cmp_refs_total)
    show "cmp_refs ns k ?d st a c \<le> 0"
      if "a \<in> set ?xs" "b \<in> set ?xs" "c \<in> set ?xs"
        "cmp_refs ns k ?d st a b \<le> 0" "cmp_refs ns k ?d st b c \<le> 0" for a b c
      using consistentD [OF cons that] .
  qed
  have strict: "sorted_wrt (\<lambda>a b. \<not> cmp_refs ns k (\<not> ?d) ?st1 a b \<le> 0) (filteredData ?st1)"
  proof (rule sorted_wrt_distinct_mono [OF dist1 sorted1])
    fix a b
    assume a: "a \<in> set (filteredData ?st1)" and b: "b \<in> set (filteredData ?st1)"
      and ne: "a \<noteq> b" and le: "cmp_refs ns k ?d st a b \<le> 0"
    have "a \<in> set ?xs" "b \<in> set ?xs" using a b set1 by simp_all
    then have "\<not> tie ns k st a b"
      using nt ne unfolding no_ties_def by blast
    then have "cmp_refs ns k ?d st a b \<noteq> 0"
      unfolding tie_def cmp_refs_zero_iff [of ns k ?d st a b] .
    then have "\<not> cmp_refs ns k (\<not> ?d) st a b \<le> 0"
      unfolding cmp_refs_neg using le by simp
    then show "\<not> cmp_refs ns k (\<not> ?d) ?st1 a b \<le> 0"
      by (simp add: cmp_refs_heap [OF heap_sortClick])
  qed
  have "filteredData (sortClick ns k ?st1)
      = array_sort (cmp_refs ns k (\<not> ?d) ?st1) (filteredData ?st1)"
    using filteredData_sortClick [of ns k ?st1] by (simp add: asc_sortClick_twice)
  then have "filteredData (sortClick ns k ?st1) = rev (filteredData ?st1)"
    using array_sort_reverses [OF strict] by simp
  then show ?thesis
    using asc_sortClick_twice [of ns k st] sortClick_other [of st k' ns] by blast
qed

text \<open>
  C5, as stated, fails: the hall and the chairs of the example page have the same
  category. One activation of the category header gives bouquet, hall, chairs; the
  second gives hall, chairs, bouquet, which is not the reverse.
\<close>

theorem sort_toggle_counterexample:
  "filteredData (sortClick String_whole ''category'' (sortClick String_whole ''category'' ex_page))
     = [0, 1, 2]
   \<and> rev (filteredData (sortClick String_whole ''category'' ex_page)) = [1, 0, 2]"
  by code_simp

theorem sort_toggle_witness:
  "consistent String_whole ''item'' ex_page (filteredData ex_page)
   \<and> no_ties String_whole ''item'' ex_page (filteredData ex_page)
   \<and> key (currentSort ex_page) \<noteq> ''item''
   \<and> filteredData (sortClick String_whole ''item'' ex_page) = [2, 1, 0]
   \<and> filteredData (sortClick String_whole ''item'' (sortClick String_whole ''item'' ex_page)) = [0, 1, 2]
   \<and> currentSort (sortClick String_whole ''item'' ex_page) = \<lparr>key = ''item'', asc = True\<rparr>"
proof -
  have c: "consistent String_whole ''item'' ex_page (filteredData ex_page)" by code_simp
  have n: "no_ties String_whole ''item'' ex_page (filteredData ex_page)" by code_simp
  have k: "key (currentSort ex_page) \<noteq> ''item''" by code_simp
  have v: "filteredData (sortClick String_whole ''item'' ex_page) = [2, 1, 0]" by code_simp
  have t: "filteredData (sortClick String_whole ''item'' (sortClick String_whole ''item'' ex_page))
       = rev (filteredData (sortClick String_whole ''item'' ex_page))"
    and o: "key (currentSort ex_page) \<noteq> ''item'' \<longrightarrow>
       currentSort (sortClick String_whole ''item'' ex_page) = \<lparr>key = ''item'', asc = True\<rparr>"
    using sort_toggle [OF c n, of "''item''"] by blast+
  have "filteredData (sortClick String_whole ''item'' (sortClick String_whole ''item'' ex_page)) = [0, 1, 2]"
    unfolding t v by simp
  moreover have "currentSort (sortClick String_whole ''item'' ex_page) = \<lparr>key = ''item'', asc = True\<rparr>"
    using o k by blast
  ultimately show ?thesis using c n k v by blast
qed

section \<open>What the handlers leave alone\<close>

lemma frame_applyFilters:
  "heap (applyFilters st) = heap st" "originalData (applyFilters st) = originalData st"
  "next_ref (applyFilters st) = next_ref st" "calls (applyFilters st) = calls st"
  by (simp_all add: applyFilters_def)

lemma frame_renderTable:
  "heap (renderTable ns st) = heap st" "originalData (renderTable ns st) = originalData st"
  "next_ref (renderTable ns st) = next_ref st" "calls (renderTable ns st) = calls st"
  by (simp_all add: renderTable_def updateSummary_def sortData_def)

lemma frame_updateSummary:
  "heap (updateSummary st) = heap st" "originalData (updateSummary st) = originalData st"
  "next_ref (updateSummary st) = next_ref st" "calls (updateSummary st) = calls st"
  by (simp_all add: updateSummary_def)

lemma frame_sortClick:
  "heap (sortClick ns k st) = heap st" "originalData (sortClick ns k st) = originalData st"
  "next_ref (sortClick ns k st) = next_ref st" "calls (sortClick ns k st) = calls st"
  by (simp_all add: sortClick_def frame_renderTable)

lemma frame_handleFilterChange:
  "heap (handleFilterChange ns st) = heap st"
  "originalData (handleFilterChange ns st) = originalData st"
  "next_ref (handleFilterChange ns st) = next_ref st"
  "calls (handleFilterChange ns st) = calls st"
  by (simp_all add: handleFilterChange_def frame_renderTable frame_applyFilters)

lemma in_order_frame:
  assumes "heap st' = heap st" "originalData st' = originalData st" "next_ref st' = next_ref st"
  shows "refs_allocated st' = refs_allocated st" "sentinel_count st' = sentinel_count st"
proof -
  have "is_new st' = is_new st" by (intro ext) (simp add: is_new_def assms)
  then show "refs_allocated st' = refs_allocated st" "sentinel_count st' = sentinel_count st"
    by (simp_all add: refs_allocated_def sentinel_count_def assms)
qed

lemma filter_length_pointwise:
  "length xs = length ys \<Longrightarrow> (\<And>i. i < length xs \<Longrightarrow> P (xs ! i) \<Longrightarrow> Q (ys ! i))
     \<Longrightarrow> length (filter P xs) \<le> length (filter Q ys)"
proof (induction xs ys rule: list_induct2)
  case Nil
  show ?case by simp
next
  case (Cons x xs y ys)
  have "length (filter P xs) \<le> length (filter Q ys)"
  proof (rule Cons.IH)
    show "Q (ys ! i)" if "i < length xs" "P (xs ! i)" for i
      using Cons.prems [of "Suc i"] that by simp
  qed
  moreover have "P x \<Longrightarrow> Q y" using Cons.prems [of 0] by simp
  ultimately show ?case by auto
qed

lemma isNewItem_sentinel: "isNewItem (Str (''new-item-temp-'' @ stamp))"
  by (simp add: isNewItem_def startsWith_def)

lemma isNewItem_Num: "\<not> isNewItem (Num n)"
  by (simp add: isNewItem_def)

lemma id_set_field: "id' (set_field f v it) = id' it"
  by (cases f) simp_all

lemma id_transformItem: "\<not> isNewItem (id' (transformItem row))"
  by (simp add: transformItem_def isNewItem_Num)

lemma findIndex_Some: "findIndex P xs = Some n \<Longrightarrow> n < length xs \<and> P (xs ! n)"
proof (induction xs arbitrary: n)
  case Nil
  then show ?case by simp
next
  case (Cons x xs)
  then show ?case by (cases "P x") (auto split: if_splits)
qed

lemma findIndex_None: "findIndex P xs = None \<Longrightarrow> x \<in> set xs \<Longrightarrow> \<not> P x"
  by (induction xs) (auto split: if_splits)

lemma in_order_init: "refs_allocated (init ns search req fetched) \<and> sentinel_count (init ns search req fetched) = 0"
proof -
  define rows where "rows = (case fetched of Some d \<Rightarrow> d | None \<Rightarrow> [])"
  define s0 where "s0 = \<lparr> heap = (\<lambda>r. if r < length rows then transformItem (rows ! r) else blank_item),
             next_ref = length rows,
             originalData = [0..<length rows],
             filteredData = [0..<length rows],
             currentSort = \<lparr>key = ''id'', asc = True\<rparr>,
             searchInput = search,
             categoryFilter = [],
             requiredFilter = req,
             totalCount = 0,
             visibleCount = 0,
             totalCost = 0,
             calls = [SelectAll] \<rparr>"
  have i: "init ns search req fetched = renderTable ns s0"
    unfolding init_def s0_def rows_def Let_def by (rule refl)
  have "refs_allocated s0" by (simp add: refs_allocated_def s0_def)
  moreover have "filter (is_new s0) (originalData s0) = []"
    by (simp add: is_new_def s0_def id_transformItem filter_empty_conv)
  ultimately show ?thesis
    unfolding i using in_order_frame [of "renderTable ns s0" s0]
    by (simp add: frame_renderTable sentinel_count_def)
qed

section \<open>At most one unsaved row\<close>

lemma in_order_same:
  assumes "heap st' = heap st" "originalData st' = originalData st" "next_ref st' = next_ref st"
  shows "in_order st' = in_order st"
  using in_order_frame [OF assms] by (simp add: in_order_def)

lemma in_order_renderTable: "in_order (renderTable ns st) = in_order st"
  by (rule in_order_same) (simp_all add: frame_renderTable)

lemma in_order_applyFilters: "in_order (applyFilters st) = in_order st"
  by (rule in_order_same) (simp_all add: frame_applyFilters)

lemma in_order_updateSummary: "in_order (updateSummary st) = in_order st"
  by (rule in_order_same) (simp_all add: frame_updateSummary)

lemma in_order_calls: "in_order (st\<lparr>calls := c\<rparr>) = in_order st"
  by (rule in_order_same) simp_all

text \<open>
  Moving from \<open>st\<close> to \<open>st'\<close> keeps a state in order when the canonical array keeps its
  length, every reference stays allocated, and an unsaved row of \<open>st'\<close> stands where
  one stood in \<open>st\<close>.
\<close>

lemma in_order_step:
  assumes ord: "in_order st"
    and len: "length (originalData st') = length (originalData st)"
    and alloc: "\<And>i. i < length (originalData st) \<Longrightarrow> originalData st' ! i < next_ref st'"
    and new: "\<And>i. i < length (originalData st) \<Longrightarrow> is_new st' (originalData st' ! i)
                \<Longrightarrow> is_new st (originalData st ! i)"
  shows "in_order st'"
proof -
  have "length (filter (is_new st') (originalData st')) \<le> length (filter (is_new st) (originalData st))"
    by (rule filter_length_pointwise) (simp_all add: len new)
  then have "sentinel_count st' \<le> 1"
    using ord by (simp add: in_order_def sentinel_count_def)
  moreover have "refs_allocated st'"
    unfolding refs_allocated_def using alloc len by (metis in_set_conv_nth)
  ultimately show ?thesis by (simp add: in_order_def)
qed

lemma in_order_remove_id: "in_order st \<Longrightarrow> in_order (remove_id i st)"
proof -
  assume ord: "in_order st"
  have n: "is_new (remove_id i st) = is_new st"
    by (intro ext) (simp add: is_new_def remove_id_def)
  have "length (filter (is_new st) (filter (\<lambda>r. id' (heap st r) \<noteq> i) (originalData st)))
          \<le> length (filter (is_new st) (originalData st))"
    by (simp add: length_filter_conv_card card_mono subset_iff)
  moreover have "originalData (remove_id i st) = filter (\<lambda>r. id' (heap st r) \<noteq> i) (originalData st)"
    and "next_ref (remove_id i st) = next_ref st"
    by (simp_all add: remove_id_def)
  ultimately show ?thesis
    using ord unfolding in_order_def sentinel_count_def refs_allocated_def n by auto
qed

lemma in_order_add:
  assumes "in_order st"
  shows "in_order (addNewItemRow ns stamp st)"
proof (cases "list_ex (is_new st) (originalData st)")
  case True
  with assms show ?thesis by (simp add: addNewItemRow_def)
next
  case False
  define newItem where "newItem =
     \<lparr> id' = Str (''new-item-temp-'' @ stamp), category = Some [], item = Some [],
       required = Some ''No'', notes' = Some [], unitCost = None, quantity = None,
       subTotal = None, mdContent = Some [], html = None \<rparr>"
  define st1 where "st1 = st\<lparr>heap := (heap st)(next_ref st := newItem), next_ref := Suc (next_ref st),
                         originalData := next_ref st # originalData st\<rparr>"
  have eq: "addNewItemRow ns stamp st = renderTable ns (applyFilters st1)"
    using False unfolding addNewItemRow_def st1_def newItem_def Let_def by simp
  have alloc: "\<forall>x\<in>set (originalData st). x < next_ref st"
    using assms by (simp add: in_order_def refs_allocated_def)
  have none: "\<forall>x\<in>set (originalData st). \<not> is_new st x"
    using False by (simp add: list_ex_iff)
  have same: "is_new st1 x = is_new st x" if "x \<in> set (originalData st)" for x
    using alloc that by (auto simp: is_new_def st1_def)
  have "filter (is_new st1) (originalData st) = []"
    using none same by (simp add: filter_empty_conv)
  then have "sentinel_count st1 \<le> 1"
    by (simp add: sentinel_count_def st1_def)
  moreover have "refs_allocated st1"
    using alloc by (auto simp: refs_allocated_def st1_def)
  ultimately have "in_order st1" by (simp add: in_order_def)
  then show ?thesis
    by (simp add: eq in_order_renderTable in_order_applyFilters)
qed

lemma is_new_set_field:
  "is_new (st\<lparr>heap := (heap st)(r := set_field f v (heap st r))\<rparr>) = is_new st"
  by (intro ext) (simp add: is_new_def id_set_field)

lemma in_order_set_field:
  "in_order (st\<lparr>heap := (heap st)(r := set_field f v (heap st r))\<rparr>) = in_order st"
  by (simp add: in_order_def refs_allocated_def sentinel_count_def is_new_set_field)

lemma in_order_blur_begin:
  assumes "in_order st"
  shows "in_order (fst (handleFieldBlur_begin pf st r f raw))"
  using assms
  by (simp add: handleFieldBlur_begin_def Let_def in_order_calls in_order_set_field)

lemma update_allocated:
  assumes "\<forall>x\<in>set xs. x < c" "i < length xs"
  shows "xs[n := c] ! i < Suc c"
proof (cases "i = n")
  case True
  with assms(2) show ?thesis by simp
next
  case False
  then have "xs[n := c] ! i = xs ! i" by simp
  moreover have "xs ! i < c" using assms by simp
  ultimately show ?thesis by simp
qed

lemma in_order_create_done:
  assumes ord: "in_order st"
  shows "in_order (fst (handleFieldBlur_resume ns st (AwaitCreate r) resp))"
proof (cases resp)
  case None
  with ord show ?thesis by simp
next
  case (Some row)
  define c where "c = next_ref st"
  define st1 where "st1 = st\<lparr>heap := (heap st)(c := transformItem row), next_ref := Suc c\<rparr>"
  define index where "index = findIndex (\<lambda>i. id' (heap st1 i) = id' (heap st1 r)) (originalData st1)"
  define st2 where "st2 = (case index of
                        Some n \<Rightarrow> st1\<lparr>originalData := (originalData st1)[n := c]\<rparr>
                      | None \<Rightarrow> st1)"
  define st3 where "st3 = st2\<lparr>heap := (heap st2)(r := transformItem row)\<rparr>"
  have eq: "fst (handleFieldBlur_resume ns st (AwaitCreate r) resp) = renderTable ns (applyFilters st3)"
    unfolding Some st3_def st2_def index_def st1_def c_def by (simp add: Let_def)
  have alloc: "\<forall>x\<in>set (originalData st). x < c"
    using ord by (simp add: in_order_def refs_allocated_def c_def)
  have od1: "originalData st1 = originalData st" by (simp add: st1_def)
  have heap3: "heap st3 = (heap st)(c := transformItem row, r := transformItem row)"
    by (cases index) (simp_all add: st3_def st2_def st1_def)
  have next3: "next_ref st3 = Suc c"
    by (cases index) (simp_all add: st3_def st2_def st1_def)
  have od3: "originalData st3 = (case index of Some n \<Rightarrow> (originalData st)[n := c]
                                | None \<Rightarrow> originalData st)"
    by (cases index) (simp_all add: st3_def st2_def st1_def)
  have new3: "is_new st3 x \<Longrightarrow> is_new st x \<and> x \<noteq> c \<and> x \<noteq> r" for x
    by (auto simp: is_new_def heap3 id_transformItem split: if_splits)
  have "in_order st3"
  proof (rule in_order_step [OF ord])
    show "length (originalData st3) = length (originalData st)"
      by (cases index) (simp_all add: od3)
    show "originalData st3 ! i < next_ref st3" if "i < length (originalData st)" for i
    proof (cases index)
      case None
      then show ?thesis using that alloc by (simp add: next3 od3 less_Suc_eq)
    next
      case (Some n)
      then show ?thesis using update_allocated [OF alloc that] by (simp add: next3 od3)
    qed
    show "is_new st (originalData st ! i)"
      if "i < length (originalData st)" "is_new st3 (originalData st3 ! i)" for i
    proof -
      have "is_new st (originalData st3 ! i)" and "originalData st3 ! i \<noteq> c"
        using new3 [OF that(2)] by simp_all
      then show ?thesis
      proof (cases index)
        case None
        assume "is_new st (originalData st3 ! i)"
        with None show ?thesis by (simp add: od3)
      next
        case (Some n)
        assume a: "is_new st (originalData st3 ! i)" "originalData st3 ! i \<noteq> c"
        have "i \<noteq> n" using a(2) that(1) Some by (auto simp: od3)
        then show ?thesis using a(1) Some by (simp add: od3)
      qed
    qed
  qed
  then show ?thesis
    unfolding eq by (simp add: in_order_renderTable in_order_applyFilters)
qed

lemma in_order_update_done:
  assumes ord: "in_order st"
  shows "in_order (fst (handleFieldBlur_resume ns st (AwaitUpdate r f nv ov) resp))"
proof (cases resp)
  case None
  with ord show ?thesis by simp
next
  case (Some row)
  define st1 where "st1 = st\<lparr>heap := (heap st)(r := set_field f nv (heap st r))\<rparr>"
  define index where "index = findIndex (\<lambda>i. id' (heap st1 i) = id' (heap st1 r)) (originalData st1)"
  define c where "c = next_ref st1"
  define st2 where "st2 = (case index of
                        Some n \<Rightarrow>
                           st1\<lparr>heap := (heap st1)
                                    (c := set_field f nv (heap st1 (originalData st1 ! n))),
                                  next_ref := Suc c,
                                  originalData := (originalData st1)[n := c]\<rparr>
                      | None \<Rightarrow> st1)"
  have eq: "fst (handleFieldBlur_resume ns st (AwaitUpdate r f nv ov) resp) = updateSummary st2"
    unfolding Some st2_def c_def index_def st1_def handleFieldBlur_resume.simps Let_def
    by (simp split: option.split)
  have ord1: "in_order st1"
    using ord by (simp add: st1_def in_order_set_field)
  have "in_order st2"
  proof (cases index)
    case None
    with ord1 show ?thesis by (simp add: st2_def)
  next
    case (Some n)
    have alloc: "\<forall>x\<in>set (originalData st1). x < c"
      using ord1 by (simp add: in_order_def refs_allocated_def c_def)
    have n: "n < length (originalData st1)"
      using Some findIndex_Some unfolding index_def by fastforce
    have st2: "st2 = st1\<lparr>heap := (heap st1)
                                    (c := set_field f nv (heap st1 (originalData st1 ! n))),
                                  next_ref := Suc c,
                                  originalData := (originalData st1)[n := c]\<rparr>"
      by (simp add: st2_def Some)
    show ?thesis
    proof (rule in_order_step [OF ord1])
      show "length (originalData st2) = length (originalData st1)"
        by (simp add: st2)
      show "originalData st2 ! i < next_ref st2" if "i < length (originalData st1)" for i
        using update_allocated [OF alloc that] by (simp add: st2)
      show "is_new st1 (originalData st1 ! i)"
        if "i < length (originalData st1)" "is_new st2 (originalData st2 ! i)" for i
      proof (cases "i = n")
        case True
        then have "is_new st2 c" using that by (simp add: st2)
        then show ?thesis using True by (simp add: is_new_def st2 id_set_field)
      next
        case False
        then have "originalData st2 ! i = originalData st1 ! i" by (simp add: st2)
        moreover have "originalData st1 ! i \<noteq> c"
          using alloc that(1) by (metis nth_mem less_irrefl)
        ultimately show ?thesis using that(2) by (simp add: is_new_def st2)
      qed
    qed
  qed
  then show ?thesis unfolding eq by (simp add: in_order_updateSummary)
qed

lemma in_order_delete:
  assumes "in_order st"
  shows "in_order (fst (handleDelete_begin ns st i confirmed))"
  using assms
  by (simp add: handleDelete_begin_def in_order_renderTable in_order_applyFilters
        in_order_remove_id in_order_calls)

lemma in_order_delete_done:
  assumes "in_order st"
  shows "in_order (handleDelete_resume ns st i success)"
  using assms
  by (simp add: handleDelete_resume_def in_order_renderTable in_order_applyFilters
        in_order_remove_id)

lemma in_order_sortClick: "in_order (sortClick ns k st) = in_order st"
  by (rule in_order_same) (simp_all add: frame_sortClick)

lemma in_order_handleFilterChange: "in_order (handleFilterChange ns st) = in_order st"
  by (rule in_order_same) (simp_all add: frame_handleFilterChange)

lemma in_order_controls:
  "in_order (st\<lparr>searchInput := s, categoryFilter := c, requiredFilter := q\<rparr>) = in_order st"
  by (rule in_order_same) simp_all

lemma reachable_in_order: "reachable ns pf st \<Longrightarrow> in_order st"
proof (induction rule: reachable.induct)
  case (r_init search req fetched)
  show ?case using in_order_init [of ns search req fetched] by (simp add: in_order_def)
next
  case (r_filter st s c q)
  then show ?case by (simp add: in_order_handleFilterChange in_order_controls)
next
  case (r_sort st k)
  then show ?case by (simp add: in_order_sortClick)
next
  case (r_render st)
  then show ?case by (simp add: in_order_renderTable)
next
  case (r_add st stamp)
  then show ?case by (intro in_order_add)
next
  case (r_blur st r f raw)
  then show ?case by (intro in_order_blur_begin)
next
  case (r_blur_create st r resp)
  then show ?case by (intro in_order_create_done)
next
  case (r_blur_update st r f nv ov resp)
  then show ?case by (intro in_order_update_done)
next
  case (r_delete st i confirmed)
  then show ?case by (intro in_order_delete)
next
  case (r_delete_done st i success)
  then show ?case by (intro in_order_delete_done)
qed

lemma addNewItemRow_rejected:
  "list_ex (is_new st) (originalData st) \<Longrightarrow> addNewItemRow ns stamp st = st"
  by (simp add: addNewItemRow_def)

text \<open>
  C9. In every reachable state the canonical collection holds at most one item whose
  identifier is that of an unsaved row. Adding a row, a field blur, the completion of a
  create or of an update, a deletion and its completion, filtering and sorting all
  lead to such a state again, and a request to add a row while an unsaved row exists
  leaves the whole state as it was.
\<close>

theorem one_unsaved_row:
  assumes "reachable ns pf st"
  shows "sentinel_count st \<le> 1
    \<and> (list_ex (is_new st) (originalData st) \<longrightarrow> addNewItemRow ns stamp st = st)
    \<and> sentinel_count (addNewItemRow ns stamp st) \<le> 1
    \<and> sentinel_count (fst (handleFieldBlur_begin pf st r f raw)) \<le> 1
    \<and> sentinel_count (fst (handleFieldBlur_resume ns st (AwaitCreate r) resp)) \<le> 1
    \<and> sentinel_count (fst (handleFieldBlur_resume ns st (AwaitUpdate r f nv ov) resp)) \<le> 1
    \<and> sentinel_count (fst (handleDelete_begin ns st i confirmed)) \<le> 1
    \<and> sentinel_count (handleDelete_resume ns st i success) \<le> 1
    \<and> sentinel_count (handleFilterChange ns st) \<le> 1
    \<and> sentinel_count (sortClick ns k st) \<le> 1"
proof -
  have ord: "in_order st" using assms by (rule reachable_in_order)
  have c: "in_order s \<Longrightarrow> sentinel_count s \<le> 1" for s by (simp add: in_order_def)
  have "sentinel_count st \<le> 1" using ord by (rule c)
  moreover have "sentinel_count (addNewItemRow ns stamp st) \<le> 1"
    by (rule c [OF in_order_add [OF ord]])
  moreover have "sentinel_count (fst (handleFieldBlur_begin pf st r f raw)) \<le> 1"
    by (rule c [OF in_order_blur_begin [OF ord]])
  moreover have "sentinel_count (fst (handleFieldBlur_resume ns st (AwaitCreate r) resp)) \<le> 1"
    by (rule c [OF in_order_create_done [OF ord]])
  moreover have "sentinel_count (fst (handleFieldBlur_resume ns st (AwaitUpdate r f nv ov) resp)) \<le> 1"
    by (rule c [OF in_order_update_done [OF ord]])
  moreover have "sentinel_count (fst (handleDelete_begin ns st i confirmed)) \<le> 1"
    by (rule c [OF in_order_delete [OF ord]])
  moreover have "sentinel_count (handleDelete_resume ns st i success) \<le> 1"
    by (rule c [OF in_order_delete_done [OF ord]])
  moreover have "sentinel_count (handleFilterChange ns st) \<le> 1"
    using ord by (intro c) (simp add: in_order_handleFilterChange)
  moreover have "sentinel_count (sortClick ns k st) \<le> 1"
    using ord by (intro c) (simp add: in_order_sortClick)
  ultimately show ?thesis using addNewItemRow_rejected [of st ns stamp] by blast
qed

theorem one_unsaved_row_witness:
  "reachable String_whole parseFloat_whole ex_added
   \<and> list_ex (is_new ex_added) (originalData ex_added)
   \<and> sentinel_count ex_added = 1
   \<and> addNewItemRow String_whole ''1700000000001'' ex_added = ex_added"
proof -
  have r: "reachable String_whole parseFloat_whole ex_added"
    unfolding ex_added_def ex_page_def by (intro reachable.r_add reachable.r_init)
  have e: "list_ex (is_new ex_added) (originalData ex_added)" by code_simp
  have n: "sentinel_count ex_added = 1" by code_simp
  have "addNewItemRow String_whole ''1700000000001'' ex_added = ex_added"
    using one_unsaved_row [OF r, of "''1700000000001''"] e by blast
  with r e n show ?thesis by blast
qed

section \<open>Blur on the unsaved row\<close>

lemma filter_at_most_one:
  assumes "length (filter P xs) \<le> 1" "x \<in> set xs" "P x" "y \<in> set xs" "P y"
  shows "x = y"
proof -
  have "x \<in> set (filter P xs)" "y \<in> set (filter P xs)" using assms by simp_all
  moreover obtain z where "filter P xs = [z]"
    using assms(1) calculation(1)
    by (cases "filter P xs") (auto simp: length_Suc_conv)
  ultimately show ?thesis by simp
qed

lemma sentinel_blur_begin:
  assumes "is_new st r"
  shows "handleFieldBlur_begin pf st r f raw =
     (if get_field (field_name f) (heap st r) = blur_value pf f raw then (st, None)
      else if truthy_str (category (set_field f (blur_value pf f raw) (heap st r)))
              \<and> truthy_str (item (set_field f (blur_value pf f raw) (heap st r)))
      then (st\<lparr>heap := (heap st)(r := set_field f (blur_value pf f raw) (heap st r)),
               calls := calls st @
                  [Insert (transformToDb (set_field f (blur_value pf f raw) (heap st r)))]\<rparr>,
            Some (AwaitCreate r))
      else (st\<lparr>heap := (heap st)(r := set_field f (blur_value pf f raw) (heap st r))\<rparr>, None))"
  using assms by (simp add: handleFieldBlur_begin_def Let_def is_new_def)

lemma create_done_in_place:
  assumes ord: "in_order st" and new: "is_new st r" and mem: "r \<in> set (originalData st)"
  shows "\<exists>n < length (originalData st). originalData st ! n = r
     \<and> originalData (fst (handleFieldBlur_resume ns st (AwaitCreate r) (Some row)))
         = (originalData st)[n := next_ref st]
     \<and> heap (fst (handleFieldBlur_resume ns st (AwaitCreate r) (Some row))) (next_ref st)
         = transformItem row
     \<and> (\<forall>x\<in>set (originalData st). x \<noteq> r \<longrightarrow>
           heap (fst (handleFieldBlur_resume ns st (AwaitCreate r) (Some row))) x = heap st x)"
proof -
  define c where "c = next_ref st"
  define st1 where "st1 = st\<lparr>heap := (heap st)(c := transformItem row), next_ref := Suc c\<rparr>"
  define index where "index = findIndex (\<lambda>i. id' (heap st1 i) = id' (heap st1 r)) (originalData st1)"
  define st2 where "st2 = (case index of
                        Some n \<Rightarrow> st1\<lparr>originalData := (originalData st1)[n := c]\<rparr>
                      | None \<Rightarrow> st1)"
  define st3 where "st3 = st2\<lparr>heap := (heap st2)(r := transformItem row)\<rparr>"
  have eq: "fst (handleFieldBlur_resume ns st (AwaitCreate r) (Some row)) = renderTable ns (applyFilters st3)"
    unfolding st3_def st2_def index_def st1_def c_def by (simp add: Let_def)
  have alloc: "\<forall>x\<in>set (originalData st). x < c"
    using ord by (simp add: in_order_def refs_allocated_def c_def)
  have h1: "heap st1 x = heap st x" if "x \<in> set (originalData st)" for x
    using alloc that by (auto simp: st1_def)
  obtain n where n: "index = Some n"
  proof (cases index)
    case None
    have "r \<in> set (originalData st1)" using mem by (simp add: st1_def)
    then have "id' (heap st1 r) \<noteq> id' (heap st1 r)"
      using findIndex_None [OF None [unfolded index_def]] by blast
    then show ?thesis by simp
  qed
  have nlen: "n < length (originalData st)" and nid: "id' (heap st1 (originalData st ! n)) = id' (heap st1 r)"
    using findIndex_Some [OF n [unfolded index_def]] by (simp_all add: st1_def)
  have "is_new st (originalData st ! n)"
    using nid new h1 [OF mem] h1 [of "originalData st ! n"] nlen by (simp add: is_new_def)
  then have nr: "originalData st ! n = r"
    using filter_at_most_one [of "is_new st" "originalData st" "originalData st ! n" r]
      ord new mem nlen by (simp add: in_order_def sentinel_count_def)
  have od: "originalData (renderTable ns (applyFilters st3)) = (originalData st)[n := c]"
    by (simp add: frame_renderTable frame_applyFilters st3_def st2_def n st1_def)
  have hp: "heap (renderTable ns (applyFilters st3)) = (heap st)(c := transformItem row, r := transformItem row)"
    by (simp add: frame_renderTable frame_applyFilters st3_def st2_def n st1_def)
  have "r \<noteq> c" using alloc mem by auto
  then have "heap (renderTable ns (applyFilters st3)) c = transformItem row"
    by (simp add: hp)
  moreover have "\<forall>x\<in>set (originalData st). x \<noteq> r \<longrightarrow> heap (renderTable ns (applyFilters st3)) x = heap st x"
    using alloc by (auto simp: hp)
  ultimately show ?thesis
    unfolding eq using nlen nr od c_def by blast
qed

text \<open>
  C6, amended. For the unsaved row: a blur that submits the value the field already has
  does nothing. A blur that changes the field's value sets the field on the row's
  object, and issues a create call if and only if category and item are both non-empty
  after that; when either is empty no call is issued. When a create fails the state is
  left as it is. When a create succeeds while the unsaved row is in the canonical
  collection (of a state that is in order), the stored record takes the unsaved row's
  place there, at the same position, and the other items are untouched.
\<close>

theorem sentinel_blur:
  assumes "is_new st r"
  shows "(get_field (field_name f) (heap st r) = blur_value pf f raw \<longrightarrow>
            handleFieldBlur_begin pf st r f raw = (st, None))
    \<and> (get_field (field_name f) (heap st r) \<noteq> blur_value pf f raw \<longrightarrow>
         (snd (handleFieldBlur_begin pf st r f raw) = Some (AwaitCreate r)
            \<longleftrightarrow> truthy_str (category (set_field f (blur_value pf f raw) (heap st r)))
                \<and> truthy_str (item (set_field f (blur_value pf f raw) (heap st r))))
         \<and> (snd (handleFieldBlur_begin pf st r f raw) = Some (AwaitCreate r) \<longrightarrow>
              calls (fst (handleFieldBlur_begin pf st r f raw))
                = calls st @ [Insert (transformToDb (set_field f (blur_value pf f raw) (heap st r)))])
         \<and> (snd (handleFieldBlur_begin pf st r f raw) \<noteq> Some (AwaitCreate r) \<longrightarrow>
              snd (handleFieldBlur_begin pf st r f raw) = None
              \<and> calls (fst (handleFieldBlur_begin pf st r f raw)) = calls st)
         \<and> heap (fst (handleFieldBlur_begin pf st r f raw))
             = (heap st)(r := set_field f (blur_value pf f raw) (heap st r))
         \<and> originalData (fst (handleFieldBlur_begin pf st r f raw)) = originalData st)
    \<and> handleFieldBlur_resume ns st (AwaitCreate r) None = (st, None)
    \<and> (in_order st \<and> r \<in> set (originalData st) \<longrightarrow>
         (\<exists>n < length (originalData st). originalData st ! n = r
           \<and> originalData (fst (handleFieldBlur_resume ns st (AwaitCreate r) (Some row)))
               = (originalData st)[n := next_ref st]
           \<and> heap (fst (handleFieldBlur_resume ns st (AwaitCreate r) (Some row))) (next_ref st)
               = transformItem row
           \<and> (\<forall>x\<in>set (originalData st). x \<noteq> r \<longrightarrow>
                 heap (fst (handleFieldBlur_resume ns st (AwaitCreate r) (Some row))) x = heap st x)))"
proof -
  have "in_order st \<and> r \<in> set (originalData st) \<longrightarrow>
         (\<exists>n < length (originalData st). originalData st ! n = r
           \<and> originalData (fst (handleFieldBlur_resume ns st (AwaitCreate r) (Some row)))
               = (originalData st)[n := next_ref st]
           \<and> heap (fst (handleFieldBlur_resume ns st (AwaitCreate r) (Some row))) (next_ref st)
               = transformItem row
           \<and> (\<forall>x\<in>set (originalData st). x \<noteq> r \<longrightarrow>
                 heap (fst (handleFieldBlur_resume ns st (AwaitCreate r) (Some row))) x = heap st x))"
    using create_done_in_place [OF _ assms] by blast
  moreover have "handleFieldBlur_resume ns st (AwaitCreate r) None = (st, None)" by simp
  ultimately show ?thesis
    unfolding sentinel_blur_begin [OF assms] by simp
qed

text \<open>
  C6, as stated, fails: after a create that the store rejected, the unsaved row has the
  category \<open>Flowers\<close> and the name \<open>Bouquet\<close>. A blur of the category cell with
  \<open>Flowers\<close> still in it leaves both non-empty, and issues no create call.
\<close>

theorem sentinel_blur_counterexample:
  "is_new ex_retry 3
   \<and> truthy_str (category (set_field Category (blur_value parseFloat_whole Category ''Flowers'') (heap ex_retry 3)))
   \<and> truthy_str (item (set_field Category (blur_value parseFloat_whole Category ''Flowers'') (heap ex_retry 3)))
   \<and> snd (handleFieldBlur_begin parseFloat_whole ex_retry 3 Category ''Flowers'') = None
   \<and> calls (fst (handleFieldBlur_begin parseFloat_whole ex_retry 3 Category ''Flowers'')) = calls ex_retry"
  by code_simp

theorem sentinel_blur_witness:
  "is_new ex_cat 3
   \<and> get_field (field_name Item) (heap ex_cat 3) \<noteq> blur_value parseFloat_whole Item ''Bouquet''
   \<and> snd (handleFieldBlur_begin parseFloat_whole ex_cat 3 Item ''Bouquet'') = Some (AwaitCreate 3)
   \<and> calls ex_sent = calls ex_cat @ [Insert (transformToDb (heap ex_sent 3))]
   \<and> db_category (transformToDb (heap ex_sent 3)) = Some ''Flowers''
   \<and> db_item (transformToDb (heap ex_sent 3)) = Some ''Bouquet''
   \<and> is_new ex_sent 3 \<and> in_order ex_sent \<and> 3 \<in> set (originalData ex_sent)
   \<and> originalData ex_sent = [3, 0, 1, 2]
   \<and> originalData (fst (handleFieldBlur_resume String_whole ex_sent (AwaitCreate 3)
          (Some (mk_row 4 ''Flowers'' ''Bouquet'' None None None)))) = [4, 0, 1, 2]
   \<and> is_new ex_added 3
   \<and> get_field (field_name Category) (heap ex_added 3) \<noteq> blur_value parseFloat_whole Category ''Flowers''
   \<and> snd (handleFieldBlur_begin parseFloat_whole ex_added 3 Category ''Flowers'') = None
   \<and> calls (fst (handleFieldBlur_begin parseFloat_whole ex_added 3 Category ''Flowers'')) = calls ex_added"
proof -
  have new: "is_new ex_cat 3" by code_simp
  have changed: "get_field (field_name Item) (heap ex_cat 3) \<noteq> blur_value parseFloat_whole Item ''Bouquet''"
    by code_simp
  have both: "truthy_str (category (set_field Item (blur_value parseFloat_whole Item ''Bouquet'') (heap ex_cat 3)))
      \<and> truthy_str (item (set_field Item (blur_value parseFloat_whole Item ''Bouquet'') (heap ex_cat 3)))"
    by code_simp
  have sent: "snd (handleFieldBlur_begin parseFloat_whole ex_cat 3 Item ''Bouquet'') = Some (AwaitCreate 3)"
    using sentinel_blur [OF new, of Item parseFloat_whole "''Bouquet''"] changed both by blast
  have new': "is_new ex_sent 3" by code_simp
  have ord: "in_order ex_sent" by code_simp
  have mem: "3 \<in> set (originalData ex_sent)" by code_simp
  have od: "originalData ex_sent = [3, 0, 1, 2]" and nx: "next_ref ex_sent = 4" by code_simp+
  obtain n where n: "n < length (originalData ex_sent)" "originalData ex_sent ! n = 3"
    "originalData (fst (handleFieldBlur_resume String_whole ex_sent (AwaitCreate 3)
          (Some (mk_row 4 ''Flowers'' ''Bouquet'' None None None))))
       = (originalData ex_sent)[n := next_ref ex_sent]"
    using sentinel_blur [OF new', of _ _ _ String_whole "mk_row 4 ''Flowers'' ''Bouquet'' None None None"]
      ord mem by blast
  have "n = 0"
    using n(1,2) unfolding od by (simp add: nth_Cons' split: if_splits)
  then have fin: "originalData (fst (handleFieldBlur_resume String_whole ex_sent (AwaitCreate 3)
          (Some (mk_row 4 ''Flowers'' ''Bouquet'' None None None)))) = [4, 0, 1, 2]"
    using n(3) unfolding od nx by simp
  have rest: "calls ex_sent = calls ex_cat @ [Insert (transformToDb (heap ex_sent 3))]"
    "db_category (transformToDb (heap ex_sent 3)) = Some ''Flowers''"
    "db_item (transformToDb (heap ex_sent 3)) = Some ''Bouquet''"
    by code_simp+
  have new0: "is_new ex_added 3" by code_simp
  have changed0: "get_field (field_name Category) (heap ex_added 3) \<noteq> blur_value parseFloat_whole Category ''Flowers''"
    by code_simp
  have notboth: "\<not> truthy_str (item (set_field Category (blur_value parseFloat_whole Category ''Flowers'') (heap ex_added 3)))"
    by code_simp
  have local: "snd (handleFieldBlur_begin parseFloat_whole ex_added 3 Category ''Flowers'') = None
     \<and> calls (fst (handleFieldBlur_begin parseFloat_whole ex_added 3 Category ''Flowers'')) = calls ex_added"
    using sentinel_blur [OF new0, of Category parseFloat_whole "''Flowers''"] changed0 notboth by blast
  show ?thesis
    using new changed sent rest new' ord mem od fin new0 changed0 local by blast
qed

section \<open>Blur on a stored row\<close>

lemma get_set_blur:
  "get_field (field_name f) (set_field f (blur_value pf f raw) it) = blur_value pf f raw"
  by (cases f) (simp_all add: get_field_def blur_value_def str_val_def num_val_def Let_def)

lemma stored_blur_begin:
  assumes "\<not> is_new st r"
  shows "handleFieldBlur_begin pf st r f raw =
     (if get_field (field_name f) (heap st r) = blur_value pf f raw then (st, None)
      else (st\<lparr>calls := calls st @
                  [UpdateField (id' (heap st r)) (camelToSnake (field_name f)) (blur_value pf f raw)]\<rparr>,
            Some (AwaitUpdate r f (blur_value pf f raw) (get_field (field_name f) (heap st r)))))"
  using assms by (simp add: handleFieldBlur_begin_def Let_def is_new_def)

text \<open>What the input shows for a value: the value itself, and nothing for null.\<close>

lemma editable_value:
  "get_field (field_name f) it = Null
   \<or> (\<exists>s. get_field (field_name f) it = Str s \<and> f \<noteq> UnitCost \<and> f \<noteq> Quantity)
   \<or> (\<exists>n. get_field (field_name f) it = Num n \<and> (f = UnitCost \<or> f = Quantity))"
  by (cases f) (auto simp: get_field_def str_val_def num_val_def split: option.splits)

lemma restored_value:
  "(if f = UnitCost \<or> f = Quantity
    then (if get_field (field_name f) it \<noteq> Null \<and> get_field (field_name f) it \<noteq> Undefined
          then get_field (field_name f) it else Str [])
    else (if truthy (get_field (field_name f) it) then get_field (field_name f) it else Str []))
   = (if get_field (field_name f) it = Null then Str [] else get_field (field_name f) it)"
  using editable_value [of f it] by auto

lemma update_done_field:
  assumes idx: "findIndex (\<lambda>x. id' (heap st x) = id' (heap st r)) (originalData st) = Some n"
  shows "get_field (field_name f)
           (heap (fst (handleFieldBlur_resume ns st (AwaitUpdate r f (blur_value pf f raw) ov) (Some row)))
              (originalData (fst (handleFieldBlur_resume ns st (AwaitUpdate r f (blur_value pf f raw) ov)
                 (Some row))) ! n))
         = blur_value pf f raw
    \<and> length (originalData (fst (handleFieldBlur_resume ns st (AwaitUpdate r f (blur_value pf f raw) ov)
                 (Some row)))) = length (originalData st)
    \<and> get_field (field_name f)
           (heap (fst (handleFieldBlur_resume ns st (AwaitUpdate r f (blur_value pf f raw) ov) (Some row))) r)
         = blur_value pf f raw"
proof -
  define nv where "nv = blur_value pf f raw"
  define st1 where "st1 = st\<lparr>heap := (heap st)(r := set_field f nv (heap st r))\<rparr>"
  define c where "c = next_ref st1"
  define st2 where "st2 = st1\<lparr>heap := (heap st1)
                                    (c := set_field f nv (heap st1 (originalData st1 ! n))),
                                  next_ref := Suc c,
                                  originalData := (originalData st1)[n := c]\<rparr>"
  have same: "(\<lambda>i. id' (heap st1 i) = id' (heap st1 r)) = (\<lambda>x. id' (heap st x) = id' (heap st r))"
    by (intro ext) (simp add: st1_def id_set_field)
  have idx1: "findIndex (\<lambda>i. id' (heap st1 i) = id' (heap st1 r)) (originalData st1) = Some n"
    unfolding same using idx by (simp add: st1_def)
  have eq: "fst (handleFieldBlur_resume ns st (AwaitUpdate r f nv ov) (Some row)) = updateSummary st2"
    unfolding handleFieldBlur_resume.simps Let_def option.case
    unfolding st1_def [symmetric] idx1 option.case c_def [symmetric] st2_def [symmetric]
    by simp
  have n: "n < length (originalData st)"
    using findIndex_Some [OF idx] by simp
  have "heap st2 (originalData st2 ! n) = set_field f nv (heap st1 (originalData st1 ! n))"
    using n by (simp add: st2_def st1_def)
  then have a: "get_field (field_name f) (heap st2 (originalData st2 ! n)) = nv"
    by (simp add: nv_def get_set_blur)
  have b: "length (originalData st2) = length (originalData st)"
    by (simp add: st2_def st1_def)
  have "heap st2 r = (if r = c then set_field f nv (heap st1 (originalData st1 ! n))
                      else set_field f nv (heap st r))"
    by (simp add: st2_def st1_def)
  then have c': "get_field (field_name f) (heap st2 r) = nv"
    by (simp add: nv_def get_set_blur)
  show ?thesis
    using a b c' unfolding nv_def [symmetric] eq frame_updateSummary by simp
qed

text \<open>
  What holds of a single-field update, whatever else happens while it is awaited. For a
  stored item and any editable field, a blur that does not change the value does
  nothing, and one that changes it sends a single-field update and keeps the value that
  it read from the item before the request. When the update is rejected, the state in
  which the answer arrives is left exactly as it is, so no record changes, and the input
  is given the value that was read before the request (nothing when it was null). When
  the update succeeds, the record at the item's position in the canonical collection
  has the new value for the field.
\<close>

lemma field_update_parts:
  assumes "\<not> is_new st r"
  shows "(get_field (field_name f) (heap st r) = blur_value pf f raw \<longrightarrow>
            handleFieldBlur_begin pf st r f raw = (st, None))
    \<and> (get_field (field_name f) (heap st r) \<noteq> blur_value pf f raw \<longrightarrow>
          handleFieldBlur_begin pf st r f raw
            = (st\<lparr>calls := calls st @
                   [UpdateField (id' (heap st r)) (camelToSnake (field_name f))
                      (blur_value pf f raw)]\<rparr>,
               Some (AwaitUpdate r f (blur_value pf f raw) (get_field (field_name f) (heap st r)))))
    \<and> handleFieldBlur_resume ns st' (AwaitUpdate r f nv (get_field (field_name f) (heap st r))) None
        = (st', Some (if get_field (field_name f) (heap st r) = Null then Str []
                      else get_field (field_name f) (heap st r)))
    \<and> snd (handleFieldBlur_resume ns st' (AwaitUpdate r f nv ov) (Some row)) = None
    \<and> (findIndex (\<lambda>x. id' (heap st' x) = id' (heap st' r)) (originalData st') = Some n \<longrightarrow>
          get_field (field_name f)
            (heap (fst (handleFieldBlur_resume ns st' (AwaitUpdate r f (blur_value pf f raw) ov)
                         (Some row)))
               (originalData (fst (handleFieldBlur_resume ns st'
                  (AwaitUpdate r f (blur_value pf f raw) ov) (Some row))) ! n))
            = blur_value pf f raw
        \<and> length (originalData (fst (handleFieldBlur_resume ns st'
                  (AwaitUpdate r f (blur_value pf f raw) ov) (Some row))))
            = length (originalData st'))"
proof (intro conjI impI)
  assume "get_field (field_name f) (heap st r) = blur_value pf f raw"
  then show "handleFieldBlur_begin pf st r f raw = (st, None)"
    by (simp add: stored_blur_begin [OF assms])
next
  assume "get_field (field_name f) (heap st r) \<noteq> blur_value pf f raw"
  then show "handleFieldBlur_begin pf st r f raw
            = (st\<lparr>calls := calls st @
                   [UpdateField (id' (heap st r)) (camelToSnake (field_name f))
                      (blur_value pf f raw)]\<rparr>,
               Some (AwaitUpdate r f (blur_value pf f raw) (get_field (field_name f) (heap st r))))"
    by (simp add: stored_blur_begin [OF assms])
next
  show "handleFieldBlur_resume ns st' (AwaitUpdate r f nv (get_field (field_name f) (heap st r))) None
        = (st', Some (if get_field (field_name f) (heap st r) = Null then Str []
                      else get_field (field_name f) (heap st r)))"
    unfolding handleFieldBlur_resume.simps option.case restored_value ..
next
  show "snd (handleFieldBlur_resume ns st' (AwaitUpdate r f nv ov) (Some row)) = None"
    by (simp add: Let_def)
next
  assume idx: "findIndex (\<lambda>x. id' (heap st' x) = id' (heap st' r)) (originalData st') = Some n"
  show "get_field (field_name f)
            (heap (fst (handleFieldBlur_resume ns st' (AwaitUpdate r f (blur_value pf f raw) ov)
                         (Some row)))
               (originalData (fst (handleFieldBlur_resume ns st'
                  (AwaitUpdate r f (blur_value pf f raw) ov) (Some row))) ! n))
            = blur_value pf f raw"
    "length (originalData (fst (handleFieldBlur_resume ns st'
                  (AwaitUpdate r f (blur_value pf f raw) ov) (Some row))))
            = length (originalData st')"
    using update_done_field [OF idx, of f ns pf raw ov row] by simp_all
qed

text \<open>
  The episode of the \<open>required\<close> cell can happen: its last state is one the page reaches.
\<close>

lemma stale_restore_reachable: "reachable String_whole parseFloat_whole (fst ex_stale)"
proof -
  have n: "1 < next_ref ex_page" "1 < next_ref ex_changed" "1 < next_ref ex_left"
    "1 < next_ref ex_saved"
    by code_simp+
  have "reachable String_whole parseFloat_whole ex_page"
    unfolding ex_page_def by (rule r_init)
  then have "reachable String_whole parseFloat_whole ex_changed"
    unfolding ex_changed_def using n(1) by (rule r_blur)
  then have "reachable String_whole parseFloat_whole ex_left"
    unfolding ex_left_def using n(2) by (rule r_blur)
  then have "reachable String_whole parseFloat_whole ex_saved"
    unfolding ex_saved_def using n(3) by (rule r_blur_update)
  then show ?thesis
    unfolding ex_stale_def using n(4) by (rule r_blur_update)
qed

text \<open>
  C7. When a single-field update fails, the input is to show the value that the
  canonical record has for the field. The code gives the input the value that the
  handler read from the item before the request, and the two differ when two saves of
  one field are awaited at once. On the example page the \<open>required\<close> cell of the chairs
  is changed from \<open>No\<close> to \<open>Yes\<close> and then left: both listeners of the select read
  \<open>No\<close> from the item as the old value, since the item is only written when an update
  has succeeded, and both send the update. The first update succeeds, and the canonical
  record has \<open>Yes\<close>. The second is rejected: the canonical record still has \<open>Yes\<close>,
  and the input is given \<open>No\<close>.
\<close>

theorem stale_restore:
  "\<not> is_new ex_page 1
   \<and> originalData ex_page ! 1 = 1
   \<and> get_field (field_name Required) (heap ex_page 1) = Str ''No''
   \<and> snd (handleFieldBlur_begin parseFloat_whole ex_page 1 Required ''Yes'')
       = Some (AwaitUpdate 1 Required (Str ''Yes'') (Str ''No''))
   \<and> get_field (field_name Required) (heap ex_changed 1) = Str ''No''
   \<and> snd (handleFieldBlur_begin parseFloat_whole ex_changed 1 Required ''Yes'')
       = Some (AwaitUpdate 1 Required (Str ''Yes'') (Str ''No''))
   \<and> calls ex_left
       = [SelectAll, UpdateField (Num 2) ''required'' (Str ''Yes''),
          UpdateField (Num 2) ''required'' (Str ''Yes'')]
   \<and> get_field (field_name Required) (heap ex_saved (originalData ex_saved ! 1)) = Str ''Yes''
   \<and> get_field (field_name Required) (heap ex_saved 1) = Str ''Yes''
   \<and> id' (heap ex_saved (originalData ex_saved ! 1)) = Num 2
   \<and> get_field (field_name Required) (heap (fst ex_stale) (originalData (fst ex_stale) ! 1))
       = Str ''Yes''
   \<and> snd ex_stale = Some (Str ''No'')"
  by code_simp

section \<open>Adding a row and deleting it again\<close>

lemma rejected_changes_nothing: "fst (handleFieldBlur_resume ns st p None) = st"
  by (cases p) simp_all

lemma failed_blur_sentinel:
  assumes new: "is_new st r"
  shows "originalData (fst (handleFieldBlur_begin pf st r f raw)) = originalData st
    \<and> id' (heap (fst (handleFieldBlur_begin pf st r f raw)) r) = id' (heap st r)
    \<and> (\<forall>x. x \<noteq> r \<longrightarrow> heap (fst (handleFieldBlur_begin pf st r f raw)) x = heap st x)
    \<and> (\<exists>ps. calls (fst (handleFieldBlur_begin pf st r f raw)) = calls st @ map Insert ps)
    \<and> (complete (fst (handleFieldBlur_begin pf st r f raw)) r \<and> \<not> complete st r \<longrightarrow>
          (\<exists>p. calls (fst (handleFieldBlur_begin pf st r f raw)) = calls st @ [Insert p]))
    \<and> (\<not> complete (fst (handleFieldBlur_begin pf st r f raw)) r \<longrightarrow>
          calls (fst (handleFieldBlur_begin pf st r f raw)) = calls st)"
proof -
  let ?it = "set_field f (blur_value pf f raw) (heap st r)"
  note run = sentinel_blur_begin [OF new, of pf f raw]
  consider (same) "handleFieldBlur_begin pf st r f raw = (st, None)"
    | (sent) "handleFieldBlur_begin pf st r f raw
         = (st\<lparr>heap := (heap st)(r := ?it), calls := calls st @ [Insert (transformToDb ?it)]\<rparr>,
            Some (AwaitCreate r))"
        "truthy_str (category ?it) \<and> truthy_str (item ?it)"
    | (kept) "handleFieldBlur_begin pf st r f raw = (st\<lparr>heap := (heap st)(r := ?it)\<rparr>, None)"
        "\<not> (truthy_str (category ?it) \<and> truthy_str (item ?it))"
  proof (cases "get_field (field_name f) (heap st r) = blur_value pf f raw")
    case True
    have "handleFieldBlur_begin pf st r f raw = (st, None)"
      unfolding run using True by simp
    then show ?thesis by (rule same)
  next
    case ne: False
    show ?thesis
    proof (cases "truthy_str (category ?it) \<and> truthy_str (item ?it)")
      case True
      have "handleFieldBlur_begin pf st r f raw
         = (st\<lparr>heap := (heap st)(r := ?it), calls := calls st @ [Insert (transformToDb ?it)]\<rparr>,
            Some (AwaitCreate r))"
        unfolding run using ne True by simp
      then show ?thesis using True by (rule sent)
    next
      case False
      have "handleFieldBlur_begin pf st r f raw = (st\<lparr>heap := (heap st)(r := ?it)\<rparr>, None)"
        by (simp only: run ne False if_False)
      then show ?thesis using False by (rule kept)
    qed
  qed
  then show ?thesis
  proof cases
    case same
    have "calls st = calls st @ map Insert []" by simp
    then have "\<exists>ps. calls st = calls st @ map Insert ps" by (rule exI)
    then show ?thesis unfolding same by simp
  next
    case sent
    have "calls st @ [Insert (transformToDb ?it)] = calls st @ map Insert [transformToDb ?it]"
      by simp
    then have "\<exists>ps. calls st @ [Insert (transformToDb ?it)] = calls st @ map Insert ps"
      by (rule exI)
    moreover have "\<exists>p. calls st @ [Insert (transformToDb ?it)] = calls st @ [Insert p]"
      by (rule exI) (rule refl)
    ultimately show ?thesis
      unfolding sent(1) using sent(2) by (simp add: id_set_field complete_def)
  next
    case kept
    have "calls st = calls st @ map Insert []" by simp
    then have "\<exists>ps. calls st = calls st @ map Insert ps" by (rule exI)
    then show ?thesis
      unfolding kept(1) using kept(2) by (auto simp add: id_set_field complete_def)
  qed
qed

lemma failed_blurs_sentinel:
  assumes "is_new st r"
  shows "originalData (failed_blurs pf st r evs) = originalData st
    \<and> id' (heap (failed_blurs pf st r evs) r) = id' (heap st r)
    \<and> (\<forall>x. x \<noteq> r \<longrightarrow> heap (failed_blurs pf st r evs) x = heap st x)
    \<and> (\<exists>ps. calls (failed_blurs pf st r evs) = calls st @ map Insert ps)"
  using assms
proof (induction evs arbitrary: st)
  case Nil
  have "calls st = calls st @ map Insert []" by simp
  then have "\<exists>ps. calls st = calls st @ map Insert ps" by (rule exI)
  then show ?case by simp
next
  case (Cons e evs)
  obtain f raw where e: "e = (f, raw)" by (cases e)
  let ?s = "fst (handleFieldBlur_begin pf st r f raw)"
  note one = failed_blur_sentinel [OF Cons.prems, of pf f raw]
  have new': "is_new ?s r" using one Cons.prems by (simp add: is_new_def)
  note rest = Cons.IH [OF new']
  have fb: "failed_blurs pf st r (e # evs) = failed_blurs pf ?s r evs"
    by (simp add: e)
  obtain ps where ps: "calls ?s = calls st @ map Insert ps" using one by blast
  obtain qs where qs: "calls (failed_blurs pf ?s r evs) = calls ?s @ map Insert qs"
    using rest by blast
  have "calls (failed_blurs pf ?s r evs) = calls st @ map Insert (ps @ qs)"
    by (simp add: ps qs)
  then have c: "\<exists>ps. calls (failed_blurs pf ?s r evs) = calls st @ map Insert ps" by (rule exI)
  show ?case
    unfolding fb using one rest c by simp
qed

text \<open>
  A run of blurs on an unsaved row that is incomplete at its start sends nothing
  exactly when the row stays incomplete: the first blur that completes the row sends the
  insert.
\<close>

lemma failed_blurs_calls:
  assumes "is_new st r" and "\<not> complete st r"
  shows "calls (failed_blurs pf st r evs) = calls st \<longleftrightarrow> stays_incomplete pf st r evs"
  using assms
proof (induction evs arbitrary: st)
  case Nil
  show ?case by simp
next
  case (Cons e evs)
  obtain f raw where e: "e = (f, raw)" by (cases e)
  let ?s = "fst (handleFieldBlur_begin pf st r f raw)"
  note one = failed_blur_sentinel [OF Cons.prems(1), of pf f raw]
  have new': "is_new ?s r" using one Cons.prems(1) by (simp add: is_new_def)
  have fb: "failed_blurs pf st r (e # evs) = failed_blurs pf ?s r evs"
    and si: "stays_incomplete pf st r (e # evs)
      \<longleftrightarrow> \<not> complete ?s r \<and> stays_incomplete pf ?s r evs"
    by (simp_all add: e)
  show ?case
  proof (cases "complete ?s r")
    case True
    obtain p where p: "calls ?s = calls st @ [Insert p]"
      using one True Cons.prems(2) by blast
    obtain qs where qs: "calls (failed_blurs pf ?s r evs) = calls ?s @ map Insert qs"
      using failed_blurs_sentinel [OF new', of pf evs] by blast
    have "calls (failed_blurs pf ?s r evs) = calls st @ Insert p # map Insert qs"
      by (simp add: p qs)
    then have "calls (failed_blurs pf ?s r evs) \<noteq> calls st" by simp
    then show ?thesis unfolding fb si using True by simp
  next
    case False
    have same: "calls ?s = calls st" using one False by blast
    have "calls (failed_blurs pf ?s r evs) = calls ?s \<longleftrightarrow> stays_incomplete pf ?s r evs"
      using new' False by (rule Cons.IH)
    then show ?thesis unfolding fb si same using False by simp
  qed
qed

lemma addNewItemRow_fresh:
  assumes "\<not> list_ex (is_new st) (originalData st)"
  shows "originalData (addNewItemRow ns stamp st) = next_ref st # originalData st
    \<and> calls (addNewItemRow ns stamp st) = calls st
    \<and> heap (addNewItemRow ns stamp st)
        = (heap st)(next_ref st :=
            \<lparr> id' = Str (''new-item-temp-'' @ stamp), category = Some [], item = Some [],
              required = Some ''No'', notes' = Some [], unitCost = None, quantity = None,
              subTotal = None, mdContent = Some [], html = None \<rparr>)"
  using assms
  by (simp add: addNewItemRow_def Let_def frame_renderTable frame_applyFilters)

text \<open>
  C8, as stated, fails: on the example page a row is added, its category is set to
  \<open>Flowers\<close> and its name to \<open>Bouquet\<close>, which sends an insert that the store
  rejects, and the row is deleted. No save has succeeded, the canonical collection is
  the one from before the row was added, and yet the insert has been sent to the store.
\<close>

theorem add_then_delete_counterexample:
  "in_order ex_page
   \<and> \<not> list_ex (is_new ex_page) (originalData ex_page)
   \<and> calls ex_page = [SelectAll]
   \<and> calls ex_added = [SelectAll]
   \<and> originalData ex_added = [3, 0, 1, 2]
   \<and> calls ex_cat = [SelectAll]
   \<and> snd (handleFieldBlur_begin parseFloat_whole ex_cat 3 Item ''Bouquet'') = Some (AwaitCreate 3)
   \<and> is_new ex_retry 3
   \<and> originalData ex_retry = [3, 0, 1, 2]
   \<and> snd (handleDelete_begin String_whole ex_retry (Str (''new-item-temp-'' @ ''1700000000000''))
            False) = None
   \<and> calls ex_retry_deleted = [SelectAll, Insert (transformToDb (heap ex_sent 3))]
   \<and> db_category (transformToDb (heap ex_sent 3)) = Some ''Flowers''
   \<and> db_item (transformToDb (heap ex_sent 3)) = Some ''Bouquet''
   \<and> calls ex_retry_deleted \<noteq> calls ex_page
   \<and> originalData ex_retry_deleted = originalData ex_page"
  by code_simp

text \<open>
  C8, amended. From a state that is in order and has no unsaved row: adding a row puts
  one new object in front of the canonical collection and sends nothing to the store.
  After any run of blurs on that row in which no save succeeds, deleting the row makes
  no delete call and awaits nothing, and the canonical collection is the one from
  before the row was added, with the same items in the same order. The calls made in
  the whole episode are those from before the row was added exactly when the row
  stayed incomplete, that is, when after each blur its category or its name was still
  empty; otherwise they are those and the inserts that the blurs sent and the store
  rejected.
\<close>

theorem add_then_delete:
  fixes st :: state and stamp :: string and ns :: "rat \<Rightarrow> string" and pf :: "string \<Rightarrow> rat"
    and evs :: "(field \<times> string) list" and confirmed :: bool
  defines "sid \<equiv> Str (''new-item-temp-'' @ stamp)"
    and "st1 \<equiv> addNewItemRow ns stamp st"
  defines "st2 \<equiv> failed_blurs pf st1 (next_ref st) evs"
  defines "st3 \<equiv> fst (handleDelete_begin ns st2 sid confirmed)"
  assumes ord: "in_order st" and none: "\<not> list_ex (is_new st) (originalData st)"
  shows "originalData st1 = next_ref st # originalData st
    \<and> id' (heap st1 (next_ref st)) = sid
    \<and> calls st1 = calls st
    \<and> snd (handleDelete_begin ns st2 sid confirmed) = None
    \<and> calls st3 = calls st2
    \<and> (\<exists>ps. calls st3 = calls st @ map Insert ps)
    \<and> (calls st3 = calls st \<longleftrightarrow> stays_incomplete pf st1 (next_ref st) evs)
    \<and> originalData st3 = originalData st
    \<and> (\<forall>x\<in>set (originalData st). heap st3 x = heap st x)"
proof -
  let ?r = "next_ref st"
  note add = addNewItemRow_fresh [OF none, of ns stamp, folded st1_def]
  have alloc: "\<forall>x\<in>set (originalData st). x < ?r"
    using ord by (simp add: in_order_def refs_allocated_def)
  have old: "\<forall>x\<in>set (originalData st). \<not> is_new st x"
    using none by (simp add: list_ex_iff)
  have sn: "isNewItem sid" unfolding sid_def by (rule isNewItem_sentinel)
  have id1: "id' (heap st1 ?r) = sid" by (simp add: add sid_def)
  have new1: "is_new st1 ?r" by (simp add: is_new_def id1 sn)
  have blank1: "\<not> complete st1 ?r" by (simp add: add complete_def truthy_str_def)
  note run = failed_blurs_sentinel [OF new1, of pf evs, folded st2_def]
  note sent = failed_blurs_calls [OF new1 blank1, of pf evs, folded st2_def]
  have od2: "originalData st2 = ?r # originalData st" using run add by simp
  have id2: "id' (heap st2 ?r) = sid" using run id1 by simp
  have heap2: "heap st2 x = heap st x" if "x \<in> set (originalData st)" for x
  proof -
    have "x \<noteq> ?r" using alloc that by auto
    then have "heap st2 x = heap st1 x" using run by simp
    also have "\<dots> = heap st x" using \<open>x \<noteq> ?r\<close> by (simp add: add)
    finally show ?thesis .
  qed
  have keep: "id' (heap st2 x) \<noteq> sid" if "x \<in> set (originalData st)" for x
  proof
    assume "id' (heap st2 x) = sid"
    then have "is_new st x"
      using heap2 [OF that] sn by (simp add: is_new_def)
    with old that show False by blast
  qed
  have del: "handleDelete_begin ns st2 sid confirmed
      = (renderTable ns (applyFilters (remove_id sid st2)), None)"
    by (simp add: handleDelete_begin_def sn)
  have od3: "originalData st3 = originalData st"
  proof -
    have "filter (\<lambda>x. id' (heap st2 x) \<noteq> sid) (originalData st) = originalData st"
      using keep by (simp add: filter_id_conv)
    then show ?thesis
      unfolding st3_def del
      by (simp add: frame_renderTable frame_applyFilters remove_id_def od2 id2)
  qed
  have heap3: "heap st3 = heap st2" and calls3: "calls st3 = calls st2"
    unfolding st3_def del
    by (simp_all add: frame_renderTable frame_applyFilters remove_id_def)
  obtain ps where ps: "calls st2 = calls st1 @ map Insert ps" using run by blast
  have "calls st3 = calls st @ map Insert ps" using ps calls3 add by simp
  then have c: "\<exists>ps. calls st3 = calls st @ map Insert ps" by (rule exI)
  have d: "calls st3 = calls st \<longleftrightarrow> stays_incomplete pf st1 ?r evs"
    using sent calls3 add by simp
  show ?thesis
    using add id1 del calls3 c d od3 heap2 heap3 by simp
qed

text \<open>
  On the example page a row is added, its name is set to \<open>Bouquet\<close> and its unit cost
  to 50 while its category is empty, and the row is deleted: nothing has been sent.
\<close>

theorem add_then_delete_witness:
  "in_order ex_page
   \<and> \<not> list_ex (is_new ex_page) (originalData ex_page)
   \<and> stays_incomplete parseFloat_whole (addNewItemRow String_whole ''1700000000000'' ex_page)
        (next_ref ex_page) [(Item, ''Bouquet''), (UnitCost, ''50'')]
   \<and> originalData (addNewItemRow String_whole ''1700000000000'' ex_page) = [3, 0, 1, 2]
   \<and> originalData ex_page = [0, 1, 2]
   \<and> originalData ex_deleted = [0, 1, 2]
   \<and> calls ex_deleted = calls ex_page"
proof -
  have ord: "in_order ex_page" by code_simp
  have none: "\<not> list_ex (is_new ex_page) (originalData ex_page)" by code_simp
  have ev: "stays_incomplete parseFloat_whole (addNewItemRow String_whole ''1700000000000'' ex_page)
        (next_ref ex_page) [(Item, ''Bouquet''), (UnitCost, ''50'')]"
    by code_simp
  have od: "originalData ex_page = [0, 1, 2]" and nx: "next_ref ex_page = 3" by code_simp+
  note t = add_then_delete [OF ord none, of String_whole "''1700000000000''" parseFloat_whole
      "[(Item, ''Bouquet''), (UnitCost, ''50'')]" False, folded ex_deleted_def]
  have "originalData (addNewItemRow String_whole ''1700000000000'' ex_page) = [3, 0, 1, 2]"
    using t od nx by simp
  moreover have "originalData ex_deleted = [0, 1, 2]" using t od by simp
  moreover have "calls ex_deleted = calls ex_page" using t ev by blast
  ultimately show ?thesis using ord none ev od by simp
qed

section \<open>The comparator is consistent on every view the page reaches\<close>

lemma ids_typed_view:
  assumes "heap st' = heap st" "next_ref st' = next_ref st"
    and "set (filteredData st') \<subseteq> set (filteredData st)"
    and "ids_typed st"
  shows "ids_typed st'"
  using assms unfolding ids_typed_def by auto

lemma set_filteredData_renderTable: "set (filteredData (renderTable ns st)) = set (filteredData st)"
  by (simp add: filteredData_renderTable set_array_sort)

lemma ids_typed_renderTable: "ids_typed st \<Longrightarrow> ids_typed (renderTable ns st)"
  by (rule ids_typed_view [of _ st]) (simp_all add: frame_renderTable set_filteredData_renderTable)

lemma ids_typed_updateSummary: "ids_typed st \<Longrightarrow> ids_typed (updateSummary st)"
  by (rule ids_typed_view [of _ st]) (simp_all add: frame_updateSummary filteredData_updateSummary)

lemma ids_typed_sortClick: "ids_typed st \<Longrightarrow> ids_typed (sortClick ns k st)"
  by (rule ids_typed_view [of _ st])
     (simp_all add: frame_sortClick filteredData_sortClick set_array_sort)

text \<open>After the filters are applied the view is part of the canonical collection.\<close>

lemma ids_typed_refilter:
  assumes ids: "\<forall>r<next_ref st. is_number (id' (heap st r)) \<or> isNewItem (id' (heap st r))"
    and alloc: "refs_allocated st"
  shows "ids_typed (renderTable ns (applyFilters st))"
proof -
  have "set (filteredData (renderTable ns (applyFilters st))) \<subseteq> set (originalData st)"
    by (auto simp: set_filteredData_renderTable applyFilters_def)
  then show ?thesis
    using ids alloc unfolding ids_typed_def refs_allocated_def
    by (auto simp: frame_renderTable frame_applyFilters)
qed

lemma ids_typed_init: "ids_typed (init ns search req fetched)"
proof -
  define rows where "rows = (case fetched of Some d \<Rightarrow> d | None \<Rightarrow> [])"
  define s0 where "s0 = \<lparr> heap = (\<lambda>r. if r < length rows then transformItem (rows ! r) else blank_item),
             next_ref = length rows,
             originalData = [0..<length rows],
             filteredData = [0..<length rows],
             currentSort = \<lparr>key = ''id'', asc = True\<rparr>,
             searchInput = search,
             categoryFilter = [],
             requiredFilter = req,
             totalCount = 0,
             visibleCount = 0,
             totalCost = 0,
             calls = [SelectAll] \<rparr>"
  have i: "init ns search req fetched = renderTable ns s0"
    unfolding init_def s0_def rows_def Let_def by (rule refl)
  have "ids_typed s0"
    by (simp add: ids_typed_def s0_def transformItem_def)
  then show ?thesis unfolding i by (rule ids_typed_renderTable)
qed

lemma typed_step:
  assumes "in_order st" "ids_typed st"
  shows "ids_typed (addNewItemRow ns stamp st)"
    "ids_typed (fst (handleFieldBlur_begin pf st r f raw))"
    "ids_typed (fst (handleFieldBlur_resume ns st (AwaitCreate r) resp))"
    "ids_typed (fst (handleFieldBlur_resume ns st (AwaitUpdate r f nv ov) resp))"
    "ids_typed (fst (handleDelete_begin ns st i confirmed))"
    "ids_typed (handleDelete_resume ns st i success)"
    "ids_typed (handleFilterChange ns (st\<lparr>searchInput := s, categoryFilter := c, requiredFilter := q\<rparr>))"
proof -
  have ids: "\<forall>r<next_ref st. is_number (id' (heap st r)) \<or> isNewItem (id' (heap st r))"
    and view: "\<forall>r\<in>set (filteredData st). r < next_ref st"
    using assms(2) by (simp_all add: ids_typed_def)
  have alloc: "refs_allocated st" using assms(1) by (simp add: in_order_def)
  show "ids_typed (addNewItemRow ns stamp st)"
  proof (cases "list_ex (is_new st) (originalData st)")
    case True
    with assms(2) show ?thesis by (simp add: addNewItemRow_def)
  next
    case False
    define newItem where "newItem =
       \<lparr> id' = Str (''new-item-temp-'' @ stamp), category = Some [], item = Some [],
         required = Some ''No'', notes' = Some [], unitCost = None, quantity = None,
         subTotal = None, mdContent = Some [], html = None \<rparr>"
    define st1 where "st1 = st\<lparr>heap := (heap st)(next_ref st := newItem), next_ref := Suc (next_ref st),
                           originalData := next_ref st # originalData st\<rparr>"
    have eq: "addNewItemRow ns stamp st = renderTable ns (applyFilters st1)"
      using False unfolding addNewItemRow_def st1_def newItem_def Let_def by simp
    have "isNewItem (id' newItem)" by (simp add: newItem_def isNewItem_def startsWith_def)
    then have "\<forall>r<next_ref st1. is_number (id' (heap st1 r)) \<or> isNewItem (id' (heap st1 r))"
      using ids by (auto simp: st1_def less_Suc_eq)
    moreover have "refs_allocated st1"
      using alloc by (auto simp: refs_allocated_def st1_def)
    ultimately show ?thesis unfolding eq by (rule ids_typed_refilter)
  qed
  show "ids_typed (fst (handleFieldBlur_begin pf st r f raw))"
    using ids view
    by (auto simp: handleFieldBlur_begin_def Let_def ids_typed_def id_set_field)
  show "ids_typed (fst (handleFieldBlur_resume ns st (AwaitCreate r) resp))"
  proof (cases resp)
    case None
    with assms(2) show ?thesis by simp
  next
    case (Some row)
    define c where "c = next_ref st"
    define st1 where "st1 = st\<lparr>heap := (heap st)(c := transformItem row), next_ref := Suc c\<rparr>"
    define index where "index = findIndex (\<lambda>i. id' (heap st1 i) = id' (heap st1 r)) (originalData st1)"
    define st2 where "st2 = (case index of
                          Some n \<Rightarrow> st1\<lparr>originalData := (originalData st1)[n := c]\<rparr>
                        | None \<Rightarrow> st1)"
    define st3 where "st3 = st2\<lparr>heap := (heap st2)(r := transformItem row)\<rparr>"
    have eq: "fst (handleFieldBlur_resume ns st (AwaitCreate r) resp) = renderTable ns (applyFilters st3)"
      unfolding Some st3_def st2_def index_def st1_def c_def by (simp add: Let_def)
    have heap3: "heap st3 = (heap st)(c := transformItem row, r := transformItem row)"
      by (cases index) (simp_all add: st3_def st2_def st1_def)
    have next3: "next_ref st3 = Suc c"
      by (cases index) (simp_all add: st3_def st2_def st1_def)
    have od3: "set (originalData st3) \<subseteq> insert c (set (originalData st))"
      by (cases index) (auto simp: st3_def st2_def st1_def dest: set_update_subset_insert [THEN subsetD])
    have "is_number (id' (transformItem row))" by (simp add: transformItem_def)
    then have "\<forall>x<next_ref st3. is_number (id' (heap st3 x)) \<or> isNewItem (id' (heap st3 x))"
      using ids by (auto simp: heap3 next3 c_def less_Suc_eq)
    moreover have "refs_allocated st3"
      using alloc od3 unfolding refs_allocated_def next3 c_def by (auto simp: less_Suc_eq)
    ultimately show ?thesis unfolding eq by (rule ids_typed_refilter)
  qed
  show "ids_typed (fst (handleFieldBlur_resume ns st (AwaitUpdate r f nv ov) resp))"
  proof (cases resp)
    case None
    with assms(2) show ?thesis by simp
  next
    case (Some row)
    define st1 where "st1 = st\<lparr>heap := (heap st)(r := set_field f nv (heap st r))\<rparr>"
    define index where "index = findIndex (\<lambda>i. id' (heap st1 i) = id' (heap st1 r)) (originalData st1)"
    define c where "c = next_ref st1"
    define st2 where "st2 = (case index of
                          Some n \<Rightarrow>
                             st1\<lparr>heap := (heap st1)
                                      (c := set_field f nv (heap st1 (originalData st1 ! n))),
                                    next_ref := Suc c,
                                    originalData := (originalData st1)[n := c]\<rparr>
                        | None \<Rightarrow> st1)"
    have eq: "fst (handleFieldBlur_resume ns st (AwaitUpdate r f nv ov) resp) = updateSummary st2"
      unfolding Some st2_def c_def index_def st1_def handleFieldBlur_resume.simps Let_def
      by (simp split: option.split)
    have t1: "ids_typed st1"
      using ids view by (auto simp: st1_def ids_typed_def id_set_field)
    have "ids_typed st2"
    proof (cases index)
      case None
      with t1 show ?thesis by (simp add: st2_def)
    next
      case (Some n)
      have n: "n < length (originalData st1)"
        using Some findIndex_Some unfolding index_def by fastforce
      then have "originalData st1 ! n < c"
        using alloc by (simp add: refs_allocated_def st1_def c_def)
      then have "is_number (id' (heap st1 (originalData st1 ! n)))
          \<or> isNewItem (id' (heap st1 (originalData st1 ! n)))"
        using t1 by (simp add: ids_typed_def c_def)
      then show ?thesis
        using t1 by (auto simp: st2_def Some ids_typed_def c_def id_set_field less_Suc_eq)
    qed
    then show ?thesis unfolding eq by (rule ids_typed_updateSummary)
  qed
  have rm: "ids_typed (renderTable ns (applyFilters (remove_id j st)))" for j
    by (rule ids_typed_refilter)
       (use ids alloc in \<open>auto simp: remove_id_def refs_allocated_def\<close>)
  show "ids_typed (fst (handleDelete_begin ns st i confirmed))"
    using rm assms(2) by (auto simp: handleDelete_begin_def ids_typed_def)
  show "ids_typed (handleDelete_resume ns st i success)"
    using rm assms(2) by (simp add: handleDelete_resume_def)
  show "ids_typed (handleFilterChange ns (st\<lparr>searchInput := s, categoryFilter := c, requiredFilter := q\<rparr>))"
    unfolding handleFilterChange_def
    by (rule ids_typed_refilter) (use ids alloc in \<open>simp_all add: refs_allocated_def\<close>)
qed

lemma reachable_ids_typed: "reachable ns pf st \<Longrightarrow> ids_typed st"
proof (induction rule: reachable.induct)
  case (r_init search req fetched)
  show ?case by (rule ids_typed_init)
next
  case (r_filter st s c q)
  then show ?case using typed_step(7) reachable_in_order by blast
next
  case (r_sort st k)
  then show ?case by (intro ids_typed_sortClick)
next
  case (r_render st)
  then show ?case by (intro ids_typed_renderTable)
next
  case (r_add st stamp)
  then show ?case using typed_step(1) reachable_in_order by blast
next
  case (r_blur st r f raw)
  then show ?case using typed_step(2) reachable_in_order by blast
next
  case (r_blur_create st r resp)
  then show ?case using typed_step(3) reachable_in_order by blast
next
  case (r_blur_update st r f nv ov resp)
  then show ?case using typed_step(4) reachable_in_order by blast
next
  case (r_delete st i confirmed)
  then show ?case using typed_step(5) reachable_in_order by blast
next
  case (r_delete_done st i success)
  then show ?case using typed_step(6) reachable_in_order by blast
qed

lemma text_column:
  assumes "k \<noteq> ''subTotal''" "k \<noteq> ''id''" "k \<noteq> ''unitCost''" "k \<noteq> ''quantity''"
  shows "\<not> is_number (sort_value k it)"
  using assms
  by (simp add: sort_value_def get_field_def blank_if_missing_def str_val_def split: option.splits)

lemma number_column:
  assumes "k = ''unitCost'' \<or> k = ''quantity''"
  shows "is_number (sort_value k it) \<or> sort_value k it = Str []"
  using assms
  by (auto simp: sort_value_def get_field_def blank_if_missing_def num_val_def split: option.splits)

lemma digit_below_n: "c \<in> set ''-0123456789'' \<Longrightarrow> lower_char c < CHR ''n''"
proof -
  assume "c \<in> set ''-0123456789''"
  then consider "c = CHR ''-''" | "c = CHR ''0''" | "c = CHR ''1''" | "c = CHR ''2''"
    | "c = CHR ''3''" | "c = CHR ''4''" | "c = CHR ''5''" | "c = CHR ''6''" | "c = CHR ''7''"
    | "c = CHR ''8''" | "c = CHR ''9''"
    by auto
  then show ?thesis
    by cases (simp_all add: lower_char_def upper_letters_def lower_letters_def)
qed

lemma number_text_below_sentinel:
  assumes "decimal ns" "isNewItem (Str s)"
  shows "toLowerCase (ns x) < toLowerCase s"
proof -
  obtain c cs where c: "ns x = c # cs" "c \<in> set ''-0123456789''"
    using assms(1) unfolding decimal_def by (cases "ns x") (auto, metis list.sel(1))
  obtain rest where "s = CHR ''n'' # rest"
    using assms(2) by (cases s) (auto simp: isNewItem_def startsWith_def)
  then show ?thesis
    using c digit_below_n [OF c(2)]
    by (simp add: toLowerCase_def lower_char_def upper_letters_def lower_letters_def)
qed

lemma typed_consistent:
  assumes dec: "decimal ns" and typed: "ids_typed st"
  shows "consistent ns k st (filteredData st)"
proof -
  consider (subtotal) "k = ''subTotal''" | (ident) "k = ''id''" | (numeric) "k = ''unitCost'' \<or> k = ''quantity''"
    | (textual) "k \<noteq> ''subTotal''" "k \<noteq> ''id''" "k \<noteq> ''unitCost''" "k \<noteq> ''quantity''"
    by blast
  then show ?thesis
  proof cases
    case subtotal
    then show ?thesis by (simp add: consistent_subTotal)
  next
    case numeric
    show ?thesis
    proof (rule consistent_numbers_or_blank)
      show "\<forall>n. ns n \<noteq> []" using dec by (simp add: decimal_def)
      show "\<forall>r\<in>set (filteredData st). is_number (sort_value k (heap st r))
          \<or> sort_value k (heap st r) = Str []"
        using number_column [OF numeric] by blast
    qed
  next
    case textual
    show ?thesis
      by (rule consistent_no_numbers) (simp add: text_column [OF textual])
  next
    case ident
    have sv: "sort_value k it = blank_if_missing (id' it)" for it
      by (simp add: ident sort_value_def get_field_def)
    show ?thesis
    proof (rule consistent_numbers_first)
      fix a b
      assume a: "a \<in> set (filteredData st)" and b: "b \<in> set (filteredData st)"
        and na: "is_number (sort_value k (heap st a))"
        and nb: "\<not> is_number (sort_value k (heap st b))"
      obtain x where x: "sort_value k (heap st a) = Num x"
        using na by (cases "sort_value k (heap st a)") simp_all
      have "b < next_ref st" using typed b by (simp add: ids_typed_def)
      then have "is_number (id' (heap st b)) \<or> isNewItem (id' (heap st b))"
        using typed by (simp add: ids_typed_def)
      then have new: "isNewItem (id' (heap st b))"
        using nb by (cases "id' (heap st b)") (simp_all add: sv blank_if_missing_def)
      then obtain s where s: "id' (heap st b) = Str s"
        by (cases "id' (heap st b)") (simp_all add: isNewItem_def)
      have "sort_value k (heap st b) = Str s"
        by (simp add: sv s blank_if_missing_def)
      then show "toLowerCase (String ns (sort_value k (heap st a)))
          < toLowerCase (String ns (sort_value k (heap st b)))"
        using number_text_below_sentinel [OF dec, of s x] new by (simp add: x s)
    qed
  qed
qed

lemma reachable_consistent:
  "decimal ns \<Longrightarrow> reachable ns pf st \<Longrightarrow> consistent ns k st (filteredData st)"
  by (rule typed_consistent) (simp_all add: reachable_ids_typed)

text \<open>The renderer of the examples meets the condition.\<close>

lemma digit_mem: "n < 10 \<Longrightarrow> ''0123456789'' ! n \<in> set ''0123456789''"
  by (rule nth_mem) simp

lemma nat_digits_head: "nat_digits n \<noteq> [] \<and> hd (nat_digits n) \<in> set ''0123456789''"
proof (induction n rule: nat_digits.induct)
  case (1 n)
  show ?case
  proof (cases "n < 10")
    case True
    then have "nat_digits n = [''0123456789'' ! n]" by simp
    then show ?thesis using digit_mem [OF True] by (simp only: list.sel list.simps not_False_eq_True simp_thms)
  next
    case False
    then have e: "nat_digits n = nat_digits (n div 10) @ [''0123456789'' ! (n mod 10)]"
      by simp
    have "nat_digits (n div 10) \<noteq> []" and "hd (nat_digits (n div 10)) \<in> set ''0123456789''"
      using 1 False by blast+
    then show ?thesis unfolding e by (simp only: hd_append2 append_is_Nil_conv simp_thms)
  qed
qed

lemma decimal_String_whole: "decimal String_whole"
  unfolding decimal_def
proof
  fix q :: rat
  let ?d = "nat_digits (nat \<lfloor>\<bar>q\<bar>\<rfloor>)"
  have d: "?d \<noteq> []" "hd ?d \<in> set ''0123456789''"
    using nat_digits_head [of "nat \<lfloor>\<bar>q\<bar>\<rfloor>"] by blast+
  have sub: "set ''0123456789'' \<subseteq> set ''-0123456789''" by (simp only: set_simps) blast
  show "String_whole q \<noteq> [] \<and> hd (String_whole q) \<in> set ''-0123456789''"
  proof (cases "q < 0")
    case True
    then have "String_whole q = CHR ''-'' # ?d" by (simp only: String_whole_def if_True append_Cons append_Nil)
    then show ?thesis by (simp only: list.sel list.simps simp_thms set_simps insertI1)
  next
    case False
    then have "String_whole q = ?d" by (simp only: String_whole_def if_False append_Nil)
    then show ?thesis using d sub by (simp only: simp_thms) blast
  qed
qed

end
